theory Spec2Isabelle
  imports Complex_Main "HOL-Library.Log_Nat" "HOL-Library.Sublist" "HOL-Library.AList"
begin

section \<open>Python values shared by the modules\<close>

text \<open>
  Exceptions are values. Only the classes that the modelled code paths can raise are
  listed; \<open>LibraryError\<close> stands for any exception raised inside a library (Pillow,
  \<open>concurrent.futures\<close>) and carries the message \<open>str(e)\<close> would return (which may be
  empty, as for \<open>MemoryError()\<close>).
\<close>

datatype exn =
    FileNotFoundError
  | FileExistsError
  | NotADirectoryError
  | IsADirectoryError
  | DirectoryNotEmptyError
  | InvalidArgumentError
  | ZeroDivisionError
  | OverflowError
  | LibraryError string

fun exn_str :: "exn \<Rightarrow> string" where
  "exn_str FileNotFoundError = ''[Errno 2] No such file or directory''"
| "exn_str FileExistsError = ''[Errno 17] File exists''"
| "exn_str NotADirectoryError = ''[Errno 20] Not a directory''"
| "exn_str IsADirectoryError = ''[Errno 21] Is a directory''"
| "exn_str DirectoryNotEmptyError = ''[Errno 39] Directory not empty''"
| "exn_str InvalidArgumentError = ''[Errno 22] Invalid argument''"
| "exn_str ZeroDivisionError = ''division by zero''"
| "exn_str OverflowError = ''cannot convert float infinity to integer''"
| "exn_str (LibraryError msg) = msg"

text \<open>A statement that raises skips the rest of its block: sequencing in the
  exception monad.\<close>

definition bind_exn :: "exn + 'a \<Rightarrow> ('a \<Rightarrow> exn + 'b) \<Rightarrow> exn + 'b" where
  "bind_exn m f = (case m of Inl e \<Rightarrow> Inl e | Inr x \<Rightarrow> f x)"

subsection \<open>Python floats\<close>

text \<open>
  A Python float is an IEEE 754 binary64 number. A finite one is modelled by the
  rational it denotes; \<open>fl\<close> is rounding to nearest, ties to even, with 53
  significant bits, gradual underflow below \<open>2 ^ - 1022\<close> and overflow to infinity
  when the rounded value needs a binary exponent above 1023. The sign of zero is not
  kept: no operation used here observes it.
\<close>

datatype pyfloat = Finite rat | Infinite

definition round_half_even :: "rat \<Rightarrow> int" where
  "round_half_even x = (let f = \<lfloor>x\<rfloor>; r = x - of_int f in
     if r < 1 / 2 then f else if 1 / 2 < r then f + 1 else if even f then f else f + 1)"

definition pow2 :: "int \<Rightarrow> rat" where
  "pow2 e = (if 0 \<le> e then 2 ^ nat e else 1 / 2 ^ nat (- e))"

text \<open>The binary exponent \<open>\<lfloor>log\<^sub>2 x\<rfloor>\<close> of a positive rational, from the bit lengths
  of its numerator and denominator.\<close>

definition binexp :: "rat \<Rightarrow> int" where
  "binexp x = (case quotient_of x of (a, b) \<Rightarrow>
     let d = bitlen a - bitlen b in if pow2 d \<le> x then d else d - 1)"

definition fl_round :: "rat \<Rightarrow> rat" where
  "fl_round x = (if x = 0 then 0 else
     let q = max (binexp \<bar>x\<bar> - 52) (- 1074)
     in of_int (round_half_even (x / pow2 q)) * pow2 q)"

text \<open>The exponent of the unit in the last place that \<open>fl_round\<close> uses at \<open>x\<close>.\<close>

definition quantum :: "rat \<Rightarrow> int" where
  "quantum x = max (binexp \<bar>x\<bar> - 52) (- 1074)"

definition fl :: "rat \<Rightarrow> pyfloat" where
  "fl x = (let y = fl_round x in
     if y = 0 \<or> binexp \<bar>y\<bar> \<le> 1023 then Finite y else Infinite)"

text \<open>\<open>a / b\<close> on two ints: the correctly rounded quotient; raises on a zero divisor
  and when the quotient is too large for a float.\<close>

definition int_truediv :: "int \<Rightarrow> int \<Rightarrow> exn + rat" where
  "int_truediv a b =
     (if b = 0 then Inl ZeroDivisionError
      else case fl (of_int a / of_int b) of Finite y \<Rightarrow> Inr y | Infinite \<Rightarrow> Inl OverflowError)"

text \<open>The implicit conversion of an int operand of a mixed int/float operation.\<close>

definition float_of_int :: "int \<Rightarrow> exn + rat" where
  "float_of_int n = (case fl (of_int n) of Finite y \<Rightarrow> Inr y | Infinite \<Rightarrow> Inl OverflowError)"

definition float_truediv :: "rat \<Rightarrow> rat \<Rightarrow> exn + pyfloat" where
  "float_truediv x y = (if y = 0 then Inl ZeroDivisionError else Inr (fl (x / y)))"

definition float_mul :: "rat \<Rightarrow> rat \<Rightarrow> pyfloat" where
  "float_mul x y = fl (x * y)"

text \<open>\<open>int(x)\<close> truncates towards zero and raises on an infinity.\<close>

definition py_int :: "pyfloat \<Rightarrow> exn + int" where
  "py_int x = (case x of
       Finite y \<Rightarrow> Inr (if 0 \<le> y then \<lfloor>y\<rfloor> else \<lceil>y\<rceil>)
     | Infinite \<Rightarrow> Inl OverflowError)"

section \<open>Resizer: \<open>converter/image_converter.py\<close>\<close>

definition calculate_aspect_ratio_resize :: "int \<times> int \<Rightarrow> int \<times> int \<Rightarrow> exn + int \<times> int" where
  "calculate_aspect_ratio_resize original_size target_size =
     (case original_size of (orig_width, orig_height) \<Rightarrow>
     (case target_size of (target_width, target_height) \<Rightarrow>
      bind_exn (int_truediv orig_width orig_height) (\<lambda>orig_aspect.
      bind_exn (int_truediv target_width target_height) (\<lambda>target_aspect.
      if orig_aspect > target_aspect then
        bind_exn (float_of_int target_width) (\<lambda>tw.
        bind_exn (float_truediv tw orig_aspect) (\<lambda>d.
        bind_exn (py_int d) (\<lambda>new_height.
        Inr (target_width, new_height))))
      else
        bind_exn (float_of_int target_height) (\<lambda>th.
        bind_exn (py_int (float_mul th orig_aspect)) (\<lambda>new_width.
        Inr (new_width, target_height)))))))"

text \<open>
  The branch rule as the specification words it, every operation being one on floats:
  if \<open>origAspect > targetAspect\<close> the width is the target width and the height is
  \<open>floor(target width / origAspect)\<close>, otherwise the height is the target height and the
  width is \<open>floor(target height * origAspect)\<close>.
\<close>

definition resize_rule :: "int \<times> int \<Rightarrow> int \<times> int \<Rightarrow> int \<times> int" where
  "resize_rule original target =
     (let orig_aspect = fl_round (of_int (fst original) / of_int (snd original));
          target_aspect = fl_round (of_int (fst target) / of_int (snd target))
      in if orig_aspect > target_aspect
         then (fst target, \<lfloor>fl_round (of_int (fst target) / orig_aspect)\<rfloor>)
         else (\<lfloor>fl_round (of_int (snd target) * orig_aspect)\<rfloor>, snd target))"

section \<open>The file system\<close>

text \<open>
  A path is the list of its components below the root, already resolved (absolute, no
  \<open>..\<close>, no symbolic links): \<open>Path.parent\<close> is \<open>butlast\<close>, \<open>Path.name\<close> is \<open>last\<close>
  (the empty string for the root) and \<open>p / name\<close> appends. (Only the session store
  builds paths from strings that may hold \<open>..\<close>; how the system walks those is said
  there.) The file system is an
  association list from paths to nodes. A directory carries its modification time, a
  regular file its bytes. Every system call checks the node it works on and its parent
  directory. The state also has the clock (\<open>time.time()\<close>, which only the session
  sweep reads; directory times are set at creation), a log of the mutating calls, in
  the order they were made, and the tables of nodes an observer could see, one after the
  other.
\<close>

type_synonym path = "string list"
type_synonym bytes = string

datatype node = File bytes | Dir rat

datatype fsop =
    OpMkdir path
  | OpWrite path
  | OpUnlink path
  | OpRename path path
  | OpRmtree path

record fsys =
  nodes :: "(path \<times> node) list"
  clock :: rat
  oplog :: "fsop list"
  seen :: "(path \<times> node) list list"

definition lookup :: "fsys \<Rightarrow> path \<Rightarrow> node option" where
  "lookup s p = map_of (nodes s) p"

definition path_exists :: "fsys \<Rightarrow> path \<Rightarrow> bool" where
  "path_exists s p = (lookup s p \<noteq> None)"

definition is_dir :: "fsys \<Rightarrow> path \<Rightarrow> bool" where
  "is_dir s p = (case lookup s p of Some (Dir _) \<Rightarrow> True | _ \<Rightarrow> False)"

definition is_file :: "fsys \<Rightarrow> path \<Rightarrow> bool" where
  "is_file s p = (case lookup s p of Some (File _) \<Rightarrow> True | _ \<Rightarrow> False)"

text \<open>Why a path cannot be reached: its parent is a regular file, or it is missing.\<close>

definition missing :: "fsys \<Rightarrow> path \<Rightarrow> exn" where
  "missing s p = (case lookup s (butlast p) of
       Some (File _) \<Rightarrow> NotADirectoryError
     | _ \<Rightarrow> FileNotFoundError)"

definition stat :: "fsys \<Rightarrow> path \<Rightarrow> exn + node" where
  "stat s p = (case lookup s p of None \<Rightarrow> Inl (missing s p) | Some n \<Rightarrow> Inr n)"

text \<open>The parent of a path that is to be created or replaced must be a directory.\<close>

definition parent_error :: "fsys \<Rightarrow> path \<Rightarrow> exn option" where
  "parent_error s p = (case lookup s (butlast p) of
       None \<Rightarrow> Some FileNotFoundError
     | Some (File _) \<Rightarrow> Some NotADirectoryError
     | Some (Dir _) \<Rightarrow> None)"

text \<open>What an observer of the file system can see: \<open>seen\<close> collects the table of
  nodes as it is after each call that changes it, and after the bytes of a write have
  arrived.\<close>

definition snapshot :: "fsys \<Rightarrow> fsys" where
  "snapshot s = s\<lparr>seen := seen s @ [nodes s]\<rparr>"

definition log_op :: "fsop \<Rightarrow> fsys \<Rightarrow> fsys" where
  "log_op x s = snapshot (s\<lparr>oplog := oplog s @ [x]\<rparr>)"

definition put_node :: "path \<Rightarrow> node \<Rightarrow> fsys \<Rightarrow> fsys" where
  "put_node p n s = s\<lparr>nodes := AList.update p n (nodes s)\<rparr>"

definition del_node :: "path \<Rightarrow> fsys \<Rightarrow> fsys" where
  "del_node p s = s\<lparr>nodes := AList.delete p (nodes s)\<rparr>"

text \<open>\<open>os.mkdir\<close>\<close>

definition os_mkdir :: "fsys \<Rightarrow> path \<Rightarrow> exn + fsys" where
  "os_mkdir s p = (case parent_error s p of
       Some e \<Rightarrow> Inl e
     | None \<Rightarrow>
         if path_exists s p then Inl FileExistsError
         else Inr (log_op (OpMkdir p) (put_node p (Dir (clock s)) s)))"

text \<open>
  \<open>Path.mkdir(exist_ok=True)\<close> and \<open>Path.mkdir(parents=True, exist_ok=True)\<close>, as pathlib
  does them: try \<open>os.mkdir\<close>; on \<open>FileNotFoundError\<close> raise, or with \<open>parents\<close> create the
  parent the same way and try once more; any other \<open>OSError\<close> is ignored exactly when
  the path is a directory. The state is returned in both cases, since ancestors may have
  been created before the failure.
\<close>

definition mkdir_exist_ok :: "fsys \<Rightarrow> path \<Rightarrow> exn option \<times> fsys" where
  "mkdir_exist_ok s p = (case os_mkdir s p of
       Inr s' \<Rightarrow> (None, s')
     | Inl e \<Rightarrow>
         if e = FileNotFoundError then (Some e, s)
         else if is_dir s p then (None, s) else (Some e, s))"

fun mkdir_parents :: "fsys \<Rightarrow> path \<Rightarrow> exn option \<times> fsys" where
  "mkdir_parents s p = (case os_mkdir s p of
       Inr s' \<Rightarrow> (None, s')
     | Inl e \<Rightarrow>
         if e = FileNotFoundError then
           (if p = [] then (Some e, s)
            else (case mkdir_parents s (butlast p) of
                (Some e', s') \<Rightarrow> (Some e', s')
              | (None, s') \<Rightarrow> mkdir_exist_ok s' p))
         else if is_dir s p then (None, s) else (Some e, s))"

text \<open>\<open>os.path.getsize\<close>; for a directory the size the platform reports.\<close>

definition getsize :: "nat \<Rightarrow> fsys \<Rightarrow> path \<Rightarrow> exn + nat" where
  "getsize dir_size s p = (case stat s p of
       Inl e \<Rightarrow> Inl e
     | Inr (File b) \<Rightarrow> Inr (length b)
     | Inr (Dir _) \<Rightarrow> Inr dir_size)"

definition read_file :: "fsys \<Rightarrow> path \<Rightarrow> exn + bytes" where
  "read_file s p = (case stat s p of
       Inl e \<Rightarrow> Inl e
     | Inr (File b) \<Rightarrow> Inr b
     | Inr (Dir _) \<Rightarrow> Inl IsADirectoryError)"

text \<open>Opening a path for writing creates or truncates the regular file there.\<close>

definition open_write :: "fsys \<Rightarrow> path \<Rightarrow> exn + fsys" where
  "open_write s p = (case parent_error s p of
       Some e \<Rightarrow> Inl e
     | None \<Rightarrow>
         if is_dir s p then Inl IsADirectoryError
         else Inr (log_op (OpWrite p) (put_node p (File []) s)))"

text \<open>\<open>Path.unlink\<close>\<close>

definition unlink :: "fsys \<Rightarrow> path \<Rightarrow> exn + fsys" where
  "unlink s p = (case stat s p of
       Inl e \<Rightarrow> Inl e
     | Inr (Dir _) \<Rightarrow> Inl IsADirectoryError
     | Inr (File _) \<Rightarrow> Inr (log_op (OpUnlink p) (del_node p s)))"

text \<open>
  \<open>Path.rename\<close> (POSIX \<open>rename(2)\<close>): a regular file replaces a regular file at
  the destination in one step; a directory moves with everything below it.
\<close>

text \<open>The entries directly below a path, in the order the file system lists them.\<close>

definition children :: "fsys \<Rightarrow> path \<Rightarrow> path list" where
  "children s p = filter (\<lambda>k. k \<noteq> [] \<and> butlast k = p) (map fst (nodes s))"

definition has_children :: "fsys \<Rightarrow> path \<Rightarrow> bool" where
  "has_children s p = (children s p \<noteq> [])"

definition move_tree :: "path \<Rightarrow> path \<Rightarrow> fsys \<Rightarrow> fsys" where
  "move_tree src dst s = s\<lparr>nodes :=
     map (\<lambda>(k, n). if prefix src k then (dst @ drop (length src) k, n) else (k, n))
       (AList.delete dst (nodes s))\<rparr>"

definition rename :: "fsys \<Rightarrow> path \<Rightarrow> path \<Rightarrow> exn + fsys" where
  "rename s src dst = (case stat s src of
       Inl e \<Rightarrow> Inl e
     | Inr (File b) \<Rightarrow>
        (case parent_error s dst of
           Some e \<Rightarrow> Inl e
         | None \<Rightarrow>
             if is_dir s dst then Inl IsADirectoryError
             else Inr (log_op (OpRename src dst) (put_node dst (File b) (del_node src s))))
     | Inr (Dir t) \<Rightarrow>
        (case parent_error s dst of
           Some e \<Rightarrow> Inl e
         | None \<Rightarrow>
             if is_file s dst then Inl NotADirectoryError
             else if src = dst then Inr (log_op (OpRename src dst) s)
             else if prefix src dst then Inl InvalidArgumentError
             else if has_children s dst then Inl DirectoryNotEmptyError
             else Inr (log_op (OpRename src dst) (move_tree src dst s))))"

text \<open>
  \<open>shutil.rmtree(p, ignore_errors=True)\<close> removes what it can: every error is
  ignored and the walk goes on. Which entries the system refuses to remove (a file in
  use, a missing permission) is a parameter: \<open>stuck k\<close> says that removing the entry
  \<open>k\<close> fails. An entry then remains when it is stuck or when an entry below it is,
  since a directory that is not empty cannot be removed. On anything that is not a
  directory the error is ignored and nothing changes.
\<close>

definition remains :: "(path \<Rightarrow> bool) \<Rightarrow> fsys \<Rightarrow> path \<Rightarrow> bool" where
  "remains stuck s k = list_ex (\<lambda>j. prefix k j \<and> stuck j) (map fst (nodes s))"

definition rmtree :: "(path \<Rightarrow> bool) \<Rightarrow> fsys \<Rightarrow> path \<Rightarrow> fsys" where
  "rmtree stuck s p =
     (if is_dir s p
      then log_op (OpRmtree p)
             (s\<lparr>nodes := filter (\<lambda>(k, n). \<not> prefix p k \<or> remains stuck s k) (nodes s)\<rparr>)
      else s)"

text \<open>\<open>Path.iterdir\<close>\<close>

definition iterdir :: "fsys \<Rightarrow> path \<Rightarrow> exn + path list" where
  "iterdir s p = (case stat s p of
       Inl e \<Rightarrow> Inl e
     | Inr (File _) \<Rightarrow> Inl NotADirectoryError
     | Inr (Dir _) \<Rightarrow> Inr (children s p))"

definition path_name :: "path \<Rightarrow> string" where
  "path_name p = (if p = [] then [] else last p)"

section \<open>Pillow\<close>

text \<open>
  The image library is a parameter of the model. An image has a mode and a size;
  \<open>data\<close> stands for its pixels. What the repository's code cannot decide is left to
  the environment: how a file's bytes are identified (\<open>Image.open\<close>), when
  \<open>convert\<close>, \<open>resize\<close> and \<open>copy\<close> fail, and what an encoder produces. A failing
  \<open>save\<close> raises either before the destination is opened (the file system is not
  touched), or after it was opened for writing; then the destination is left with some
  bytes, or the library has removed it again.
\<close>

record image =
  mode :: string
  size_img :: "int \<times> int"
  data :: bytes

datatype kwval = KBool bool | KInt int

type_synonym kwargs = "(string \<times> kwval) list"

datatype save_result =
    Encoded bytes
  | FailBeforeOpen exn
  | FailAfterOpen exn "bytes option"

record pil =
  identify :: "bytes \<Rightarrow> exn + image"
  convert_error :: "image \<Rightarrow> string \<Rightarrow> exn option"
  resize_error :: "image \<Rightarrow> int \<times> int \<Rightarrow> exn option"
  copy_error :: "image \<Rightarrow> exn option"
  encode :: "image \<Rightarrow> string option \<Rightarrow> kwargs \<Rightarrow> path \<Rightarrow> save_result"
  dir_size :: nat

definition image_open :: "pil \<Rightarrow> fsys \<Rightarrow> path \<Rightarrow> exn + image" where
  "image_open env s p = bind_exn (read_file s p) (identify env)"

definition image_convert :: "pil \<Rightarrow> image \<Rightarrow> string \<Rightarrow> exn + image" where
  "image_convert env img m = (case convert_error env img m of
       Some e \<Rightarrow> Inl e
     | None \<Rightarrow> Inr (img\<lparr>mode := m\<rparr>))"

definition image_resize :: "pil \<Rightarrow> image \<Rightarrow> int \<times> int \<Rightarrow> exn + image" where
  "image_resize env img dims = (case resize_error env img dims of
       Some e \<Rightarrow> Inl e
     | None \<Rightarrow> Inr (img\<lparr>size_img := dims\<rparr>))"

definition image_copy :: "pil \<Rightarrow> image \<Rightarrow> exn + image" where
  "image_copy env img = (case copy_error env img of Some e \<Rightarrow> Inl e | None \<Rightarrow> Inr img)"

definition image_save ::
  "pil \<Rightarrow> fsys \<Rightarrow> image \<Rightarrow> path \<Rightarrow> string option \<Rightarrow> kwargs \<Rightarrow> exn option \<times> fsys" where
  "image_save env s img p fmt kw = (case encode env img fmt kw p of
       FailBeforeOpen e \<Rightarrow> (Some e, s)
     | Encoded b \<Rightarrow>
        (case open_write s p of
           Inl e \<Rightarrow> (Some e, s)
         | Inr s1 \<Rightarrow> (None, snapshot (put_node p (File b) s1)))
     | FailAfterOpen e left \<Rightarrow>
        (case open_write s p of
           Inl e' \<Rightarrow> (Some e', s)
         | Inr s1 \<Rightarrow>
            (case left of
               Some b \<Rightarrow> (Some e, snapshot (put_node p (File b) s1))
             | None \<Rightarrow> (Some e, log_op (OpUnlink p) (del_node p s1)))))"

section \<open>Converter: \<open>converter/image_converter.py\<close>\<close>

definition OUTPUT_FORMATS :: "(string \<times> string) list" where
  "OUTPUT_FORMATS =
     [(''webp'', ''WEBP''), (''png'', ''PNG''), (''jpeg'', ''JPEG''), (''jpg'', ''JPEG''),
      (''bmp'', ''BMP''), (''tiff'', ''TIFF''), (''gif'', ''GIF''), (''ico'', ''ICO'')]"

text \<open>The attributes of an \<open>ImageConverter\<close>; \<open>encode_method\<close> is the attribute
  \<open>method\<close>.\<close>

record converter =
  output_format :: string
  encode_method :: string
  quality :: int
  resize :: bool
  target_size :: "int \<times> int"
  max_workers :: "int option"

text \<open>\<open>str.lower\<close> on the ASCII letters (format names are ASCII).\<close>

definition lower_char :: "char \<Rightarrow> char" where
  "lower_char c = (let n = (of_char c :: nat) in
     if 65 \<le> n \<and> n \<le> 90 then char_of (n + 32) else c)"

definition ImageConverter ::
  "string \<Rightarrow> string \<Rightarrow> int \<Rightarrow> bool \<Rightarrow> int \<times> int \<Rightarrow> int option \<Rightarrow> converter" where
  "ImageConverter fmt meth q rs ts mw =
     \<lparr>output_format = map lower_char fmt, encode_method = meth, quality = q, resize = rs,
      target_size = ts, max_workers = mw\<rparr>"

definition get_pillow_format :: "converter \<Rightarrow> string option" where
  "get_pillow_format cv = map_of OUTPUT_FORMATS (output_format cv)"

definition get_save_kwargs :: "converter \<Rightarrow> string option \<Rightarrow> kwargs" where
  "get_save_kwargs cv method_override =
     (let fmt = output_format cv;
          meth = (case method_override of
                    None \<Rightarrow> encode_method cv
                  | Some m \<Rightarrow> if m = [] then encode_method cv else m)
      in if fmt = ''webp'' then
           (if meth = ''lossless'' then
              [(''lossless'', KBool True), (''quality'', KInt 100), (''method'', KInt 6)]
            else if meth = ''lossy'' then
              [(''lossless'', KBool False), (''quality'', KInt (quality cv)), (''method'', KInt 6)]
            else [])
         else if fmt = ''jpeg'' \<or> fmt = ''jpg'' then
           [(''quality'', KInt (quality cv)), (''optimize'', KBool True)]
         else if fmt = ''png'' then [(''optimize'', KBool True)]
         else [])"

text \<open>
  The result dictionary of \<open>convert_single\<close>. The two sizes are kept in bytes, as
  \<open>os.path.getsize\<close> returns them; the source stores them divided by 1024 and rounded
  to two places, and a reduction percentage computed from them: total float operations
  on the two byte counts that raise nothing, which the model leaves out.
\<close>

record outcome =
  input_path :: path
  output_path :: path
  original_size :: nat
  converted_size :: nat
  original_dimensions :: "int \<times> int"
  final_dimensions :: "int \<times> int"
  method_used :: string
  success :: bool
  error :: "string option"

text \<open>The mode normalisation at the start of the \<open>with\<close> block.\<close>

definition normalize_mode :: "converter \<Rightarrow> pil \<Rightarrow> image \<Rightarrow> exn + image" where
  "normalize_mode cv env img =
     (if (output_format cv = ''jpeg'' \<or> output_format cv = ''jpg'')
          \<and> (mode img = ''RGBA'' \<or> mode img = ''P'' \<or> mode img = ''LA'')
      then image_convert env img ''RGB''
      else if mode img = ''P'' \<and> output_format cv = ''webp''
      then image_convert env img ''RGBA''
      else Inr img)"

text \<open>The resize step; the second component is what \<open>final_dimensions\<close> is set to.\<close>

definition process_image :: "converter \<Rightarrow> pil \<Rightarrow> image \<Rightarrow> exn + image \<times> (int \<times> int)" where
  "process_image cv env img =
     (if resize cv then
        bind_exn (calculate_aspect_ratio_resize (size_img img) (target_size cv)) (\<lambda>new_dims.
        bind_exn (image_resize env img new_dims) (\<lambda>processed.
        Inr (processed, new_dims)))
      else
        bind_exn (image_copy env img) (\<lambda>processed.
        Inr (processed, size_img img)))"

subsection \<open>\<open>_try_both_webp\<close>\<close>

definition webp_methods :: "converter \<Rightarrow> (string \<times> kwargs) list" where
  "webp_methods cv =
     [(''lossless'', [(''lossless'', KBool True), (''quality'', KInt 100), (''method'', KInt 6)]),
      (''lossy'', [(''lossless'', KBool False), (''quality'', KInt (quality cv)), (''method'', KInt 6)])]"

definition temp_path_of :: "path \<Rightarrow> path" where
  "temp_path_of outp = butlast outp @ [''_temp_'' @ path_name outp]"

text \<open>
  The body of the \<open>try\<close> of one loop iteration. \<open>best\<close> is the pair of \<open>best_size\<close>
  (\<open>None\<close> for \<open>float('inf')\<close>) and \<open>best_method\<close>; both are assigned before the output
  is replaced, so they keep their new values when the replacement raises.
\<close>

definition candidate_body ::
  "pil \<Rightarrow> image \<Rightarrow> path \<Rightarrow> path \<Rightarrow> nat option \<times> string \<Rightarrow> fsys \<Rightarrow> string \<times> kwargs
     \<Rightarrow> exn option \<times> (nat option \<times> string) \<times> fsys" where
  "candidate_body env img outp temp_path best s cand =
     (case image_save env s img temp_path (Some ''WEBP'') (snd cand) of
        (Some e, s1) \<Rightarrow> (Some e, best, s1)
      | (None, s1) \<Rightarrow>
         (case getsize (dir_size env) s1 temp_path of
            Inl e \<Rightarrow> (Some e, best, s1)
          | Inr sz \<Rightarrow>
             if (case fst best of None \<Rightarrow> True | Some best_size \<Rightarrow> sz < best_size) then
               (let best' = (Some sz, fst cand) in
                case (if path_exists s1 outp then unlink s1 outp else Inr s1) of
                  Inl e \<Rightarrow> (Some e, best', s1)
                | Inr s2 \<Rightarrow>
                   (case rename s2 temp_path outp of
                      Inl e \<Rightarrow> (Some e, best', s2)
                    | Inr s3 \<Rightarrow> (None, best', s3)))
             else
               (case unlink s1 temp_path of
                  Inl e \<Rightarrow> (Some e, best, s1)
                | Inr s2 \<Rightarrow> (None, best, s2))))"

text \<open>One iteration with its handler: \<open>except Exception\<close> removes the temporary file
  when it exists; an exception raised by the handler itself leaves the function.\<close>

definition try_candidate ::
  "pil \<Rightarrow> image \<Rightarrow> path \<Rightarrow> path \<Rightarrow> nat option \<times> string \<Rightarrow> fsys \<Rightarrow> string \<times> kwargs
     \<Rightarrow> exn option \<times> (nat option \<times> string) \<times> fsys" where
  "try_candidate env img outp temp_path best s cand =
     (case candidate_body env img outp temp_path best s cand of
        (None, best', s') \<Rightarrow> (None, best', s')
      | (Some e, best', s') \<Rightarrow>
         if path_exists s' temp_path then
           (case unlink s' temp_path of
              Inl e' \<Rightarrow> (Some e', best', s')
            | Inr s'' \<Rightarrow> (None, best', s''))
         else (None, best', s'))"

fun webp_loop ::
  "pil \<Rightarrow> image \<Rightarrow> path \<Rightarrow> path \<Rightarrow> nat option \<times> string \<Rightarrow> fsys \<Rightarrow> (string \<times> kwargs) list
     \<Rightarrow> exn option \<times> (nat option \<times> string) \<times> fsys" where
  "webp_loop env img outp temp_path best s [] = (None, best, s)"
| "webp_loop env img outp temp_path best s (cand # cands) =
     (case try_candidate env img outp temp_path best s cand of
        (Some e, best', s') \<Rightarrow> (Some e, best', s')
      | (None, best', s') \<Rightarrow> webp_loop env img outp temp_path best' s' cands)"

definition try_both_webp ::
  "converter \<Rightarrow> pil \<Rightarrow> fsys \<Rightarrow> image \<Rightarrow> path \<Rightarrow> (exn + string) \<times> fsys" where
  "try_both_webp cv env s img outp =
     (case webp_loop env img outp (temp_path_of outp) (None, ''lossy'') s (webp_methods cv) of
        (Some e, best, s') \<Rightarrow> (Inl e, s')
      | (None, best, s') \<Rightarrow> (Inr (snd best), s'))"

text \<open>
  What the specification says about the selection, for comparison with the loop: the
  outcome of one strategy is what its encoder returns for the temporary path; a strategy
  succeeds on a state when its \<open>save\<close> to the temporary path raises nothing there; the
  selection keeps the smallest encoded candidate, and of two of the same size the one
  tried first.
\<close>

definition candidate_result :: "pil \<Rightarrow> image \<Rightarrow> path \<Rightarrow> string \<times> kwargs \<Rightarrow> save_result" where
  "candidate_result env img outp cand =
     encode env img (Some ''WEBP'') (snd cand) (temp_path_of outp)"

definition candidate_encoded :: "pil \<Rightarrow> image \<Rightarrow> path \<Rightarrow> string \<times> kwargs \<Rightarrow> bool" where
  "candidate_encoded env img outp cand =
     (case candidate_result env img outp cand of Encoded b \<Rightarrow> True | _ \<Rightarrow> False)"

definition candidate_bytes :: "pil \<Rightarrow> image \<Rightarrow> path \<Rightarrow> string \<times> kwargs \<Rightarrow> bytes" where
  "candidate_bytes env img outp cand =
     (case candidate_result env img outp cand of Encoded b \<Rightarrow> b | _ \<Rightarrow> [])"

definition candidate_succeeds :: "pil \<Rightarrow> fsys \<Rightarrow> image \<Rightarrow> path \<Rightarrow> string \<times> kwargs \<Rightarrow> bool" where
  "candidate_succeeds env s img outp cand =
     (fst (image_save env s img (temp_path_of outp) (Some ''WEBP'') (snd cand)) = None)"

fun select_smallest ::
  "pil \<Rightarrow> image \<Rightarrow> path \<Rightarrow> (string \<times> kwargs) option \<Rightarrow> (string \<times> kwargs) list
     \<Rightarrow> (string \<times> kwargs) option" where
  "select_smallest env img outp cur [] = cur"
| "select_smallest env img outp cur (c # cs) =
     select_smallest env img outp
       (if candidate_encoded env img outp c
           \<and> (case cur of None \<Rightarrow> True
               | Some c0 \<Rightarrow> length (candidate_bytes env img outp c)
                             < length (candidate_bytes env img outp c0))
        then Some c else cur) cs"

text \<open>The loop variables and the node at the output path that belong to a selection.\<close>

definition best_of :: "pil \<Rightarrow> image \<Rightarrow> path \<Rightarrow> (string \<times> kwargs) option \<Rightarrow> nat option \<times> string" where
  "best_of env img outp cur = (case cur of
       None \<Rightarrow> (None, ''lossy'')
     | Some c \<Rightarrow> (Some (length (candidate_bytes env img outp c)), fst c))"

definition out_node :: "pil \<Rightarrow> image \<Rightarrow> path \<Rightarrow> (string \<times> kwargs) option \<Rightarrow> node option" where
  "out_node env img outp cur = (case cur of
       None \<Rightarrow> None
     | Some c \<Rightarrow> Some (File (candidate_bytes env img outp c)))"

subsection \<open>\<open>convert_single\<close>\<close>

definition init_result :: "path \<Rightarrow> path \<Rightarrow> outcome" where
  "init_result inp outp =
     \<lparr>input_path = inp, output_path = outp, original_size = 0, converted_size = 0,
      original_dimensions = (0, 0), final_dimensions = (0, 0), method_used = [],
      success = False, error = None\<rparr>"

text \<open>The encode step: the auto policy for WebP, one direct \<open>save\<close> otherwise. It
  returns what \<open>method_used\<close> is set to.\<close>

definition encode_output ::
  "converter \<Rightarrow> pil \<Rightarrow> fsys \<Rightarrow> image \<Rightarrow> path \<Rightarrow> (exn + string) \<times> fsys" where
  "encode_output cv env s processed outp =
     (if output_format cv = ''webp'' \<and> encode_method cv = ''auto'' then
        try_both_webp cv env s processed outp
      else
        (case image_save env s processed outp (get_pillow_format cv) (get_save_kwargs cv None) of
           (Some e, s') \<Rightarrow> (Inl e, s')
         | (None, s') \<Rightarrow> (Inr (encode_method cv), s')))"

text \<open>\<open>except Exception as e: result['error'] = str(e)\<close>\<close>

definition failed :: "outcome \<Rightarrow> exn \<Rightarrow> outcome" where
  "failed result e = result\<lparr>error := Some (exn_str e)\<rparr>"

text \<open>The \<open>try\<close> block with its handler, on the result dictionary as it is when the
  block is entered.\<close>

definition try_convert ::
  "converter \<Rightarrow> pil \<Rightarrow> fsys \<Rightarrow> path \<Rightarrow> path \<Rightarrow> outcome \<Rightarrow> outcome \<times> fsys" where
  "try_convert cv env s inp outp result0 =
     (case getsize (dir_size env) s inp of
        Inl e \<Rightarrow> (failed result0 e, s)
      | Inr osz \<Rightarrow>
         (let result1 = result0\<lparr>original_size := osz\<rparr> in
          case image_open env s inp of
            Inl e \<Rightarrow> (failed result1 e, s)
          | Inr img \<Rightarrow>
             (let result2 = result1\<lparr>original_dimensions := size_img img\<rparr> in
              case bind_exn (normalize_mode cv env img) (process_image cv env) of
                Inl e \<Rightarrow> (failed result2 e, s)
              | Inr (processed, dims) \<Rightarrow>
                 (let result3 = result2\<lparr>final_dimensions := dims\<rparr> in
                  case encode_output cv env s processed outp of
                    (Inl e, s') \<Rightarrow> (failed result3 e, s')
                  | (Inr m, s') \<Rightarrow>
                     (let result4 = result3\<lparr>method_used := m\<rparr> in
                      case getsize (dir_size env) s' outp of
                        Inl e \<Rightarrow> (failed result4 e, s')
                      | Inr csz \<Rightarrow>
                         (result4\<lparr>converted_size := csz, success := True\<rparr>, s'))))))"

text \<open>\<open>convert_single\<close>: the directory of the output is created before the \<open>try\<close>
  block is entered, so an exception of \<open>mkdir\<close> leaves the function (\<open>Inl\<close>).\<close>

definition convert_single ::
  "converter \<Rightarrow> pil \<Rightarrow> fsys \<Rightarrow> path \<Rightarrow> path \<Rightarrow> (exn + outcome) \<times> fsys" where
  "convert_single cv env s inp outp =
     (case mkdir_parents s (butlast outp) of
        (Some e, s1) \<Rightarrow> (Inl e, s1)
      | (None, s1) \<Rightarrow>
         (case try_convert cv env s1 inp outp (init_result inp outp) of
            (result, s2) \<Rightarrow> (Inr result, s2)))"

subsection \<open>\<open>convert_batch\<close>\<close>

text \<open>
  The pool runs one task per pair; the model runs them one after the other in the
  order of submission (the schedule of a pool with one worker). A task that returns
  appends its result under the lock; a task that raises appends nothing and its future
  holds the exception. Every task runs, whatever the others did. Then
  \<open>f.result()\<close> on the futures, in the order of submission, raises the first exception
  that a future holds. \<open>ThreadPoolExecutor\<close> itself raises \<open>ValueError\<close> for a worker
  count that is not positive.
\<close>

fun run_tasks ::
  "converter \<Rightarrow> pil \<Rightarrow> fsys \<Rightarrow> (path \<times> path) list \<Rightarrow> (exn + outcome) list \<times> fsys" where
  "run_tasks cv env s [] = ([], s)"
| "run_tasks cv env s (pair # pairs) =
     (case convert_single cv env s (fst pair) (snd pair) of
        (r, s1) \<Rightarrow>
          (case run_tasks cv env s1 pairs of
             (rs, s2) \<Rightarrow> (r # rs, s2)))"

fun appended :: "(exn + outcome) list \<Rightarrow> outcome list" where
  "appended [] = []"
| "appended (Inl e # fs) = appended fs"
| "appended (Inr r # fs) = r # appended fs"

fun first_raised :: "(exn + outcome) list \<Rightarrow> exn option" where
  "first_raised [] = None"
| "first_raised (Inl e # fs) = Some e"
| "first_raised (Inr r # fs) = first_raised fs"

definition convert_batch ::
  "converter \<Rightarrow> pil \<Rightarrow> fsys \<Rightarrow> (path \<times> path) list \<Rightarrow> (exn + outcome list) \<times> fsys" where
  "convert_batch cv env s file_pairs =
     (if (case max_workers cv of None \<Rightarrow> False | Some n \<Rightarrow> n \<le> 0)
      then (Inl (LibraryError ''max_workers must be greater than 0''), s)
      else
        (case run_tasks cv env s file_pairs of
           (futures, s') \<Rightarrow>
             (case first_raised futures of
                Some e \<Rightarrow> (Inl e, s')
              | None \<Rightarrow> (Inr (appended futures), s'))))"

section \<open>Session store: \<open>webapp/utils.py\<close> and the upload route\<close>

text \<open>
  \<open>base_dir\<close> is the directory above the package, where the two roots live. Session
  identifiers and uploaded file names are strings that pathlib parses: the components
  between slashes, without the empty ones and without \<open>.\<close>; \<open>..\<close> stays. Joining a
  string that starts with a slash to a path gives that string's path.
\<close>

definition UPLOAD_DIR :: "path \<Rightarrow> path" where
  "UPLOAD_DIR base_dir = base_dir @ [''uploads'']"

definition CONVERSION_DIR :: "path \<Rightarrow> path" where
  "CONVERSION_DIR base_dir = base_dir @ [''conversions'']"

definition SESSION_MAX_AGE :: rat where
  "SESSION_MAX_AGE = 3600"

fun split_sep :: "string \<Rightarrow> string list" where
  "split_sep [] = [[]]"
| "split_sep (c # cs) =
     (if c = CHR ''/'' then [] # split_sep cs
      else (case split_sep cs of [] \<Rightarrow> [[c]] | w # ws \<Rightarrow> (c # w) # ws))"

definition parse_parts :: "string \<Rightarrow> path" where
  "parse_parts str = filter (\<lambda>w. w \<noteq> [] \<and> w \<noteq> ''.'') (split_sep str)"

definition path_join :: "path \<Rightarrow> string \<Rightarrow> path" where
  "path_join p str =
     (if str \<noteq> [] \<and> hd str = CHR ''/'' then parse_parts str else p @ parse_parts str)"

text \<open>
  A joined path goes to the operating system as it is, with its \<open>..\<close> components.
  The system walks it from the top, one component at a time: the place reached must be
  a directory before the next component is taken, and \<open>..\<close> leads to the parent of
  the place reached (the top is its own parent; there are no symbolic links).
\<close>

fun os_walk :: "fsys \<Rightarrow> path \<Rightarrow> path \<Rightarrow> exn + path" where
  "os_walk s cur [] = (case lookup s cur of
       None \<Rightarrow> Inl FileNotFoundError
     | Some (File _) \<Rightarrow> Inl NotADirectoryError
     | Some (Dir _) \<Rightarrow> Inr cur)"
| "os_walk s cur (c # cs) = (case lookup s cur of
       None \<Rightarrow> Inl FileNotFoundError
     | Some (File _) \<Rightarrow> Inl NotADirectoryError
     | Some (Dir _) \<Rightarrow> os_walk s (if c = ''..'' then butlast cur else cur @ [c]) cs)"

text \<open>
  \<open>os.mkdir\<close> of such a path: the walk of all components but the last must end in a
  directory; a last component \<open>..\<close> names a directory that exists; any other last
  component is created below the directory reached.
\<close>

definition os_mkdir_lex :: "fsys \<Rightarrow> path \<Rightarrow> exn + fsys" where
  "os_mkdir_lex s p =
     (if p = [] then os_mkdir s []
      else (case os_walk s [] (butlast p) of
              Inl e \<Rightarrow> Inl e
            | Inr d \<Rightarrow> if last p = ''..'' then Inl FileExistsError
                       else os_mkdir s (d @ [last p])))"

text \<open>\<open>Path.is_dir\<close> of such a path: \<open>os.stat\<close> finds a directory; its errors mean no.\<close>

definition is_dir_lex :: "fsys \<Rightarrow> path \<Rightarrow> bool" where
  "is_dir_lex s p = (case os_walk s [] p of Inl e \<Rightarrow> False | Inr d \<Rightarrow> True)"

text \<open>
  \<open>Path.mkdir(parents=True, exist_ok=True)\<close> of such a path. The parent that pathlib
  creates first is the path without its last component, whatever that component is.
\<close>

definition mkdir_exist_ok_lex :: "fsys \<Rightarrow> path \<Rightarrow> exn option \<times> fsys" where
  "mkdir_exist_ok_lex s p = (case os_mkdir_lex s p of
       Inr s' \<Rightarrow> (None, s')
     | Inl e \<Rightarrow>
         if e = FileNotFoundError then (Some e, s)
         else if is_dir_lex s p then (None, s) else (Some e, s))"

fun mkdir_parents_lex :: "fsys \<Rightarrow> path \<Rightarrow> exn option \<times> fsys" where
  "mkdir_parents_lex s p = (case os_mkdir_lex s p of
       Inr s' \<Rightarrow> (None, s')
     | Inl e \<Rightarrow>
         if e = FileNotFoundError then
           (if p = [] then (Some e, s)
            else (case mkdir_parents_lex s (butlast p) of
                (Some e', s') \<Rightarrow> (Some e', s')
              | (None, s') \<Rightarrow> mkdir_exist_ok_lex s' p))
         else if is_dir_lex s p then (None, s) else (Some e, s))"

definition ensure_dirs :: "path \<Rightarrow> fsys \<Rightarrow> exn option \<times> fsys" where
  "ensure_dirs base_dir s =
     (case mkdir_exist_ok s (UPLOAD_DIR base_dir) of
        (Some e, s1) \<Rightarrow> (Some e, s1)
      | (None, s1) \<Rightarrow> mkdir_exist_ok s1 (CONVERSION_DIR base_dir))"

definition session_dir :: "path \<Rightarrow> fsys \<Rightarrow> string \<Rightarrow> (exn + path) \<times> fsys" where
  "session_dir root_dir s session_id =
     (let p = path_join root_dir session_id in
      case mkdir_parents_lex s p of
        (Some e, s') \<Rightarrow> (Inl e, s')
      | (None, s') \<Rightarrow> (Inr p, s'))"

definition session_upload_dir :: "path \<Rightarrow> fsys \<Rightarrow> string \<Rightarrow> (exn + path) \<times> fsys" where
  "session_upload_dir base_dir s session_id = session_dir (UPLOAD_DIR base_dir) s session_id"

definition session_conversion_dir :: "path \<Rightarrow> fsys \<Rightarrow> string \<Rightarrow> (exn + path) \<times> fsys" where
  "session_conversion_dir base_dir s session_id =
     session_dir (CONVERSION_DIR base_dir) s session_id"

text \<open>\<open>Path(f.filename).name\<close> of the upload route.\<close>

definition safe_name :: "string \<Rightarrow> string" where
  "safe_name filename = path_name (parse_parts filename)"

subsection \<open>\<open>cleanup_old_sessions\<close>\<close>

text \<open>The body of the inner loop for one entry. Times are floats in the source; the
  model subtracts them exactly (so does the float subtraction of two times of which
  neither is more than twice the other).\<close>

definition sweep_folder :: "(path \<Rightarrow> bool) \<Rightarrow> rat \<Rightarrow> fsys \<Rightarrow> path \<Rightarrow> fsys" where
  "sweep_folder stuck now s folder =
     (if \<not> is_dir s folder then s
      else (case stat s folder of
              Inl e \<Rightarrow> s
            | Inr (File b) \<Rightarrow> s
            | Inr (Dir st_mtime) \<Rightarrow>
                (let age = now - st_mtime in
                 if age > SESSION_MAX_AGE then rmtree stuck s folder else s)))"

text \<open>One round of the outer loop. \<open>iterdir\<close> is called outside the \<open>try\<close>: what it
  raises leaves the function.\<close>

definition sweep_base :: "(path \<Rightarrow> bool) \<Rightarrow> rat \<Rightarrow> fsys \<Rightarrow> path \<Rightarrow> exn option \<times> fsys" where
  "sweep_base stuck now s base =
     (if \<not> path_exists s base then (None, s)
      else (case iterdir s base of
              Inl e \<Rightarrow> (Some e, s)
            | Inr folders \<Rightarrow>
                (None, fold (\<lambda>folder s'. sweep_folder stuck now s' folder) folders s)))"

definition cleanup_old_sessions :: "(path \<Rightarrow> bool) \<Rightarrow> path \<Rightarrow> fsys \<Rightarrow> exn option \<times> fsys" where
  "cleanup_old_sessions stuck base_dir s =
     (let now = clock s in
      case sweep_base stuck now s (UPLOAD_DIR base_dir) of
        (Some e, s1) \<Rightarrow> (Some e, s1)
      | (None, s1) \<Rightarrow> sweep_base stuck now s1 (CONVERSION_DIR base_dir))"

section \<open>Vocabulary of the theorems\<close>

text \<open>\<open>only_ops P s s'\<close>: from \<open>s\<close> to \<open>s'\<close> the log grew, by calls that satisfy \<open>P\<close>.\<close>

definition only_ops :: "(fsop \<Rightarrow> bool) \<Rightarrow> fsys \<Rightarrow> fsys \<Rightarrow> bool" where
  "only_ops P s s' = (\<exists>ops. oplog s' = oplog s @ ops \<and> list_all P ops)"

text \<open>\<open>grows p s s'\<close>: \<open>s'\<close> is \<open>s\<close> with new directories on the way to \<open>p\<close>, made by
  \<open>mkdir\<close> calls.\<close>

definition grows :: "path \<Rightarrow> fsys \<Rightarrow> fsys \<Rightarrow> bool" where
  "grows p s s' =
     ((\<forall>q. lookup s' q = lookup s q \<or> (lookup s q = None \<and> is_dir s' q \<and> prefix q p))
      \<and> only_ops (\<lambda>x. \<exists>d. x = OpMkdir d) s s')"

text \<open>The calls of the auto policy: the only write goes to the temporary path; the
  output path is unlinked, and replaced by renaming the temporary file.\<close>

definition auto_op :: "path \<Rightarrow> fsop \<Rightarrow> bool" where
  "auto_op outp x =
     (x = OpWrite (temp_path_of outp) \<or> x = OpUnlink (temp_path_of outp)
      \<or> x = OpUnlink outp \<or> x = OpRename (temp_path_of outp) outp)"

definition convert_op :: "path \<Rightarrow> fsop \<Rightarrow> bool" where
  "convert_op outp x = ((\<exists>d. x = OpMkdir d \<and> strict_prefix d outp) \<or> auto_op outp x)"

text \<open>\<open>stays outp Q s s'\<close>: in every table of nodes seen from \<open>s\<close> to \<open>s'\<close>, and in
  \<open>s'\<close>, what is at the path \<open>outp\<close> satisfies \<open>Q\<close>.\<close>

definition stays :: "path \<Rightarrow> (node option \<Rightarrow> bool) \<Rightarrow> fsys \<Rightarrow> fsys \<Rightarrow> bool" where
  "stays outp Q s s' =
     ((\<exists>ts. seen s' = seen s @ ts \<and> list_all (\<lambda>t. Q (map_of t outp)) ts)
      \<and> Q (lookup s' outp))"

text \<open>The complete encodings of a conversion under the auto policy: what the encoders
  of the candidate strategies return for the processed image of the input file.\<close>

definition finished_files :: "converter \<Rightarrow> pil \<Rightarrow> fsys \<Rightarrow> path \<Rightarrow> path \<Rightarrow> bytes list" where
  "finished_files cv env s inp outp =
     (case image_open env s inp of
        Inl e \<Rightarrow> []
      | Inr img \<Rightarrow>
         (case bind_exn (normalize_mode cv env img) (process_image cv env) of
            Inl e \<Rightarrow> []
          | Inr (processed, dims) \<Rightarrow>
              map (candidate_bytes env processed outp)
                (filter (candidate_encoded env processed outp) (webp_methods cv))))"

text \<open>Where a path with \<open>..\<close> components leads when every place on the way is a
  directory.\<close>

fun os_resolve_from :: "path \<Rightarrow> path \<Rightarrow> path" where
  "os_resolve_from cur [] = cur"
| "os_resolve_from cur (c # cs) =
     (if c = ''..'' then os_resolve_from (butlast cur) cs else os_resolve_from (cur @ [c]) cs)"

definition os_resolve :: "path \<Rightarrow> path" where
  "os_resolve p = os_resolve_from [] p"

text \<open>A directory whose age at time \<open>now\<close> is above the threshold.\<close>

definition expired :: "rat \<Rightarrow> fsys \<Rightarrow> path \<Rightarrow> bool" where
  "expired now s f = (case lookup s f of
       Some (Dir st_mtime) \<Rightarrow> now - st_mtime > SESSION_MAX_AGE
     | _ \<Rightarrow> False)"

section \<open>Concrete inputs\<close>

text \<open>An image library in which nothing fails; the lossless WebP encoding of an image
  is twice as long as every other encoding of it.\<close>

definition pil_ok :: pil where
  "pil_ok =
     \<lparr>identify = (\<lambda>b. Inr \<lparr>mode = ''RGB'', size_img = (4, 4), data = b\<rparr>),
      convert_error = (\<lambda>img m. None),
      resize_error = (\<lambda>img dims. None),
      copy_error = (\<lambda>img. None),
      encode = (\<lambda>img fmt kw p.
         if map_of kw ''lossless'' = Some (KBool True) then Encoded (data img @ data img)
         else Encoded (data img)),
      dir_size = 4096\<rparr>"

text \<open>The same library with an encoder that fails on every image (as the WebP encoder
  does on an image wider than 16383 pixels) and leaves no file behind.\<close>

definition pil_failing :: pil where
  "pil_failing = pil_ok\<lparr>encode := (\<lambda>img fmt kw p.
     FailAfterOpen (LibraryError ''encoding error 5: Image size exceeds WebP limit'') None)\<rparr>"

text \<open>A directory \<open>/data\<close> with an input image, the output of an earlier conversion, and
  a directory.\<close>

definition fs_demo :: fsys where
  "fs_demo =
     \<lparr>nodes = [([], Dir 0), ([''data''], Dir 0), ([''data'', ''in.png''], File ''PNGDATA''),
               ([''data'', ''old.webp''], File ''OLD''), ([''data'', ''taken''], Dir 0)],
      clock = 100, oplog = [], seen = []\<rparr>"

definition cv_webp_auto :: converter where
  "cv_webp_auto = ImageConverter ''webp'' ''auto'' 90 False (512, 512) None"

definition cv_png :: converter where
  "cv_png = ImageConverter ''png'' ''auto'' 90 False (512, 512) None"

text \<open>The application directory \<open>/srv\<close> at time 5000, with three upload sessions (last
  modified 4000, 3600 and 1000 seconds ago) and one conversion session.\<close>

definition fs_app :: fsys where
  "fs_app =
     \<lparr>nodes = [([], Dir 0), ([''srv''], Dir 0), ([''srv'', ''uploads''], Dir 0),
               ([''srv'', ''conversions''], Dir 0),
               ([''srv'', ''uploads'', ''old''], Dir 1000),
               ([''srv'', ''uploads'', ''old'', ''a.png''], File ''PNGDATA''),
               ([''srv'', ''uploads'', ''edge''], Dir 1400),
               ([''srv'', ''uploads'', ''fresh''], Dir 4000),
               ([''srv'', ''conversions'', ''old''], Dir 1000),
               ([''srv'', ''conversions'', ''old'', ''a.webp''], File ''WEBPDATA'')],
      clock = 5000, oplog = [], seen = []\<rparr>"

text \<open>The same directory with a regular file where the upload root should be.\<close>

definition fs_app_blocked :: fsys where
  "fs_app_blocked =
     \<lparr>nodes = [([], Dir 0), ([''srv''], Dir 0), ([''srv'', ''uploads''], File ''note''),
               ([''srv'', ''conversions''], Dir 0),
               ([''srv'', ''conversions'', ''old''], Dir 1000),
               ([''srv'', ''conversions'', ''old'', ''a.webp''], File ''WEBPDATA'')],
      clock = 5000, oplog = [], seen = []\<rparr>"

section \<open>Properties of float rounding\<close>

lemma pow2_powi: "pow2 e = 2 powi e"
  by (simp add: pow2_def power_int_def inverse_eq_divide power_one_over)

lemma pow2_pos: "0 < pow2 e"
  by (simp add: pow2_powi)

lemma pow2_add: "pow2 (a + b) = pow2 a * pow2 b"
  by (simp add: pow2_powi power_int_add)

lemma pow2_mono: "a \<le> b \<Longrightarrow> pow2 a \<le> pow2 b"
  by (simp add: pow2_powi power_int_increasing)

lemma pow2_strict_mono: "a < b \<Longrightarrow> pow2 a < pow2 b"
  by (simp add: pow2_powi power_int_strict_increasing)

lemma pow2_nat: "0 \<le> e \<Longrightarrow> pow2 e = of_int (2 ^ nat e)"
  by (simp add: pow2_def)

lemma pow2_diff: "pow2 (a - b) = pow2 a / pow2 b"
  using pow2_add [of "a - b" b] pow2_pos [of b] by (simp add: field_simps)

lemma binexp_bounds:
  assumes "0 < x"
  shows "pow2 (binexp x) \<le> x \<and> x < pow2 (binexp x + 1)"
proof -
  obtain a b where q: "quotient_of x = (a, b)" by (cases "quotient_of x")
  have b: "0 < b" using q by (rule quotient_of_denom_pos)
  have x: "x = of_int a / of_int b" using q by (rule quotient_of_div)
  have a: "0 < a" using assms b x by (simp add: zero_less_divide_iff)
  define la lb where "la = bitlen a" and "lb = bitlen b"
  have la: "1 \<le> la" and lb: "1 \<le> lb"
    using a b bitlen_eq_zero_iff [of a] bitlen_eq_zero_iff [of b] bitlen_nonneg [of a] bitlen_nonneg [of b]
    by (auto simp: la_def lb_def)
  have ba: "2 ^ nat (la - 1) \<le> a" "a < 2 ^ nat la" and bb: "2 ^ nat (lb - 1) \<le> b" "b < 2 ^ nat lb"
    using bitlen_bounds [OF a] bitlen_bounds [OF b] by (auto simp: la_def lb_def)
  have ra: "pow2 (la - 1) \<le> of_int a" "of_int a < pow2 la"
    using ba la by (simp_all add: pow2_nat of_int_le_iff [symmetric] of_int_less_iff [symmetric] del: of_int_le_iff of_int_less_iff)
  have rb: "pow2 (lb - 1) \<le> of_int b" "of_int b < pow2 lb"
    using bb lb by (simp_all add: pow2_nat of_int_le_iff [symmetric] of_int_less_iff [symmetric] del: of_int_le_iff of_int_less_iff)
  have bpos: "(0::rat) < of_int b" using b by simp
  have up: "x < pow2 (la - lb + 1)"
  proof -
    have "of_int a < pow2 (la - lb + 1) * pow2 (lb - 1)"
      using ra(2) pow2_add [of "la - lb + 1" "lb - 1"] by simp
    also have "\<dots> \<le> pow2 (la - lb + 1) * of_int b"
      using rb(1) pow2_pos [of "la - lb + 1"] by (simp add: mult_left_mono)
    finally show ?thesis using bpos by (simp add: x pos_divide_less_eq)
  qed
  have lo: "pow2 (la - lb - 1) \<le> x"
  proof -
    have "pow2 (la - lb - 1) * of_int b \<le> pow2 (la - lb - 1) * pow2 lb"
      using rb(2) pow2_pos [of "la - lb - 1"] by (simp add: mult_left_mono)
    also have "\<dots> = pow2 (la - 1)"
      using pow2_add [of "la - lb - 1" lb] by simp
    also have "\<dots> \<le> of_int a" by (rule ra(1))
    finally show ?thesis using bpos by (simp add: x pos_le_divide_eq)
  qed
  show ?thesis
    using up lo by (auto simp: binexp_def q la_def [symmetric] lb_def [symmetric] Let_def)
qed

lemma binexp_unique:
  assumes "pow2 e \<le> x" "x < pow2 (e + 1)"
  shows "binexp x = e"
proof -
  have xp: "0 < x" using assms(1) pow2_pos [of e] by linarith
  note b = binexp_bounds [OF xp]
  have "\<not> binexp x < e"
  proof
    assume "binexp x < e"
    then have "pow2 (binexp x + 1) \<le> pow2 e" by (intro pow2_mono) simp
    with b assms show False by linarith
  qed
  moreover have "\<not> e < binexp x"
  proof
    assume "e < binexp x"
    then have "pow2 (e + 1) \<le> pow2 (binexp x)" by (intro pow2_mono) simp
    with b assms show False by linarith
  qed
  ultimately show ?thesis by linarith
qed

lemma binexp_mono:
  assumes "0 < x" "x \<le> y"
  shows "binexp x \<le> binexp y"
proof (rule ccontr)
  assume "\<not> ?thesis"
  then have "pow2 (binexp y + 1) \<le> pow2 (binexp x)" by (intro pow2_mono) simp
  with binexp_bounds [OF assms(1)] binexp_bounds [of y] assms show False by linarith
qed

lemma binexp_less: "0 < x \<Longrightarrow> x < pow2 n \<Longrightarrow> binexp x < n"
proof (rule ccontr)
  assume "0 < x" "x < pow2 n" "\<not> binexp x < n"
  then have "pow2 n \<le> pow2 (binexp x)" by (intro pow2_mono) simp
  with binexp_bounds [of x] \<open>0 < x\<close> \<open>x < pow2 n\<close> show False by linarith
qed

lemma binexp_ge: "pow2 n \<le> x \<Longrightarrow> n \<le> binexp x"
proof (rule ccontr)
  assume a: "pow2 n \<le> x" "\<not> n \<le> binexp x"
  then have xp: "0 < x" using pow2_pos [of n] by linarith
  from a have "pow2 (binexp x + 1) \<le> pow2 n" by (intro pow2_mono) simp
  with binexp_bounds [OF xp] a show False by linarith
qed

lemma rhe_of_int: "round_half_even (of_int n) = n"
  by (simp add: round_half_even_def)

lemma rhe_bounds: "of_int (round_half_even x) \<le> x + 1 / 2 \<and> x - 1 / 2 \<le> of_int (round_half_even x)"
proof -
  define f where "f = \<lfloor>x\<rfloor>"
  have "of_int f \<le> x" "x < of_int f + 1" unfolding f_def by linarith+
  then show ?thesis
    unfolding round_half_even_def Let_def f_def [symmetric]
    by (cases "x - of_int f < 1 / 2"; cases "1 / 2 < x - of_int f") auto
qed

lemma rhe_mono:
  assumes "x \<le> y"
  shows "round_half_even x \<le> round_half_even y"
proof -
  have fx: "of_int \<lfloor>x\<rfloor> \<le> x" "x < of_int \<lfloor>x\<rfloor> + 1" by linarith+
  have fy: "of_int \<lfloor>y\<rfloor> \<le> y" "y < of_int \<lfloor>y\<rfloor> + 1" by linarith+
  have fl: "\<lfloor>x\<rfloor> \<le> \<lfloor>y\<rfloor>" using assms by (rule floor_mono)
  show ?thesis
  proof (cases "\<lfloor>x\<rfloor> = \<lfloor>y\<rfloor>")
    case True
    then show ?thesis using assms by (auto simp: round_half_even_def Let_def)
  next
    case False
    with fl have "\<lfloor>x\<rfloor> + 1 \<le> \<lfloor>y\<rfloor>" by simp
    moreover have "round_half_even x \<le> \<lfloor>x\<rfloor> + 1" by (auto simp: round_half_even_def Let_def)
    moreover have "\<lfloor>y\<rfloor> \<le> round_half_even y" by (auto simp: round_half_even_def Let_def)
    ultimately show ?thesis by linarith
  qed
qed

lemma rhe_le_int: "x \<le> of_int n \<Longrightarrow> round_half_even x \<le> n"
  using rhe_mono [of x "of_int n"] by (simp add: rhe_of_int)

lemma rhe_ge_int: "of_int n \<le> x \<Longrightarrow> n \<le> round_half_even x"
  using rhe_mono [of "of_int n" x] by (simp add: rhe_of_int)

lemma fl_round_pos_eq:
  "0 < x \<Longrightarrow> fl_round x = of_int (round_half_even (x / pow2 (quantum x))) * pow2 (quantum x)"
  by (simp add: fl_round_def quantum_def Let_def)

lemma quantum_mono: "0 < x \<Longrightarrow> x \<le> y \<Longrightarrow> quantum x \<le> quantum y"
  using binexp_mono [of x y] by (simp add: quantum_def)

lemma fl_round_nonneg: "0 \<le> x \<Longrightarrow> 0 \<le> fl_round x"
proof (cases "x = 0")
  case True then show ?thesis by (simp add: fl_round_def)
next
  case False
  assume "0 \<le> x"
  with False have xp: "0 < x" by simp
  have "0 \<le> x / pow2 (quantum x)" using xp pow2_pos [of "quantum x"] by simp
  then have "0 \<le> round_half_even (x / pow2 (quantum x))"
    using rhe_ge_int [of 0] by simp
  then show ?thesis using pow2_pos [of "quantum x"] by (simp add: fl_round_pos_eq [OF xp])
qed

text \<open>A value at most an integer multiple of the quantum rounds to at most that multiple.\<close>

lemma fl_round_le_grid:
  assumes "0 < x" "x \<le> of_int n * pow2 (quantum x)"
  shows "fl_round x \<le> of_int n * pow2 (quantum x)"
proof -
  have "x / pow2 (quantum x) \<le> of_int n"
    using assms(2) pow2_pos [of "quantum x"] by (simp add: pos_divide_le_eq)
  then have "round_half_even (x / pow2 (quantum x)) \<le> n" by (rule rhe_le_int)
  then show ?thesis
    using pow2_pos [of "quantum x"] by (simp add: fl_round_pos_eq [OF assms(1)] mult_right_mono)
qed

lemma fl_round_ge_grid:
  assumes "0 < x" "of_int n * pow2 (quantum x) \<le> x"
  shows "of_int n * pow2 (quantum x) \<le> fl_round x"
proof -
  have "of_int n \<le> x / pow2 (quantum x)"
    using assms(2) pow2_pos [of "quantum x"] by (simp add: pos_le_divide_eq)
  then have "n \<le> round_half_even (x / pow2 (quantum x))" by (rule rhe_ge_int)
  then show ?thesis
    using pow2_pos [of "quantum x"] by (simp add: fl_round_pos_eq [OF assms(1)] mult_right_mono)
qed

lemma pow2_grid: "q \<le> e \<Longrightarrow> pow2 e = of_int (2 ^ nat (e - q)) * pow2 q"
  using pow2_add [of "e - q" q] by (simp add: pow2_nat)

lemma fl_round_mono_pos:
  assumes "0 < x" "x \<le> y"
  shows "fl_round x \<le> fl_round y"
proof -
  have yp: "0 < y" using assms by simp
  have q: "quantum x \<le> quantum y" using assms by (rule quantum_mono)
  show ?thesis
  proof (cases "quantum x = quantum y")
    case True
    have "x / pow2 (quantum y) \<le> y / pow2 (quantum y)"
      using assms(2) pow2_pos [of "quantum y"] by (simp add: divide_right_mono)
    then have "round_half_even (x / pow2 (quantum y)) \<le> round_half_even (y / pow2 (quantum y))"
      by (rule rhe_mono)
    then show ?thesis
      using pow2_pos [of "quantum y"]
      by (simp add: fl_round_pos_eq [OF assms(1)] fl_round_pos_eq [OF yp] True mult_right_mono)
  next
    case False
    with q have lt: "quantum x < quantum y" by simp
    define e where "e = binexp y"
    have qy: "quantum y = e - 52"
      using lt assms(1) yp by (auto simp: quantum_def e_def abs_of_pos max_def split: if_splits)
    have ex: "binexp x < e"
      using lt assms(1) yp by (auto simp: quantum_def e_def abs_of_pos max_def split: if_splits)
    have xe: "x \<le> pow2 e"
    proof -
      have "x < pow2 (binexp x + 1)" using binexp_bounds [OF assms(1)] by simp
      also have "\<dots> \<le> pow2 e" using ex by (intro pow2_mono) simp
      finally show ?thesis by simp
    qed
    have ey: "pow2 e \<le> y" using binexp_bounds [OF yp] by (simp add: e_def)
    have "quantum x \<le> e" using lt qy by simp
    from pow2_grid [OF this] xe
    have "fl_round x \<le> pow2 e"
      using fl_round_le_grid [OF assms(1), of "2 ^ nat (e - quantum x)"] by simp
    moreover have "quantum y \<le> e" using qy by simp
    from pow2_grid [OF this] ey
    have "pow2 e \<le> fl_round y"
      using fl_round_ge_grid [OF yp, of "2 ^ nat (e - quantum y)"] by simp
    ultimately show ?thesis by simp
  qed
qed

lemma fl_round_mono:
  assumes "0 \<le> x" "x \<le> y"
  shows "fl_round x \<le> fl_round y"
proof (cases "x = 0")
  case True
  then show ?thesis using assms fl_round_nonneg [of y] by (simp add: fl_round_def)
next
  case False
  then show ?thesis using assms fl_round_mono_pos by simp
qed

text \<open>Representable values are fixed points of rounding.\<close>

lemma fl_round_repr:
  assumes "0 < m" "m < 2 ^ 53" "- 1074 \<le> j"
  shows "fl_round (of_int m * pow2 j) = of_int m * pow2 j"
proof -
  define x where "x = of_int m * pow2 j"
  have xp: "0 < x" using assms(1) pow2_pos [of j] by (simp add: x_def)
  have "x < of_int (2 ^ 53) * pow2 j"
    unfolding x_def using assms(2) pow2_pos [of j] by (intro mult_strict_right_mono) (simp_all del: of_int_power add: of_int_less_iff)
  also have "\<dots> = pow2 (53 + j)" using pow2_add [of 53 j] by (simp add: pow2_def)
  finally have "binexp x < 53 + j" using xp by (intro binexp_less)
  then have q: "quantum x \<le> j" using assms(3) xp by (simp add: quantum_def abs_of_pos)
  define c where "c = nat (j - quantum x)"
  define p where "p = pow2 (quantum x)"
  have pp: "0 < p" by (simp add: p_def pow2_pos)
  have pj: "pow2 j = of_int (2 ^ c) * p" using pow2_grid [OF q] by (simp add: c_def p_def)
  have xe: "x = of_int (m * 2 ^ c) * p" unfolding x_def pj by simp
  then have "x / p = of_int (m * 2 ^ c)" using pp by simp
  then have "round_half_even (x / p) = m * 2 ^ c" by (simp only: rhe_of_int)
  then have "fl_round x = of_int (m * 2 ^ c) * p"
    by (simp add: fl_round_pos_eq [OF xp] p_def [symmetric])
  also have "\<dots> = x" by (simp only: xe [symmetric])
  finally show ?thesis by (simp only: x_def)
qed

lemma fl_round_int: "0 < n \<Longrightarrow> n < 2 ^ 53 \<Longrightarrow> fl_round (of_int n) = of_int n"
  using fl_round_repr [of n 0] by (simp add: pow2_def)

lemma fl_round_half: "0 \<le> n \<Longrightarrow> n < 2 ^ 52 \<Longrightarrow> fl_round (of_int n + 1 / 2) = of_int n + 1 / 2"
  using fl_round_repr [of "2 * n + 1" "- 1"] by (simp add: pow2_def field_simps)

lemma fl_round_pow2: "- 1074 \<le> j \<Longrightarrow> fl_round (pow2 j) = pow2 j"
  using fl_round_repr [of 1 j] by simp

lemma fl_round_idem:
  assumes "0 \<le> x"
  shows "fl_round (fl_round x) = fl_round x"
proof (cases "x = 0")
  case True then show ?thesis by (simp add: fl_round_def)
next
  case False
  with assms have xp: "0 < x" by simp
  define q where "q = quantum x"
  define m where "m = round_half_even (x / pow2 q)"
  have q: "- 1074 \<le> q" "binexp x - 52 \<le> q" using xp by (simp_all add: q_def quantum_def abs_of_pos)
  have v: "fl_round x = of_int m * pow2 q" by (simp add: fl_round_pos_eq [OF xp] m_def q_def)
  have "x < pow2 (binexp x + 1)" using binexp_bounds [OF xp] by simp
  also have "\<dots> \<le> pow2 (53 + q)" using q by (intro pow2_mono) simp
  also have "\<dots> = of_int (2 ^ 53) * pow2 q" using pow2_add [of 53 q] by (simp add: pow2_def)
  finally have "x / pow2 q \<le> of_int (2 ^ 53)" using pow2_pos [of q] by (simp add: pos_divide_le_eq)
  then have m53: "m \<le> 2 ^ 53" unfolding m_def by (rule rhe_le_int)
  have "of_int 0 \<le> x / pow2 q" using xp pow2_pos [of q] by simp
  then have m0: "0 \<le> m" unfolding m_def by (rule rhe_ge_int)
  consider "m = 0" | "0 < m" "m < 2 ^ 53" | "m = 2 ^ 53" using m0 m53 by linarith
  then show ?thesis
  proof cases
    case 1
    then have z: "fl_round x = 0" by (simp add: v)
    show ?thesis unfolding z by (simp add: fl_round_def)
  next
    case 2 then show ?thesis using fl_round_repr [of m q] q by (simp add: v)
  next
    case 3
    then have "fl_round x = pow2 (53 + q)" using pow2_add [of 53 q] by (simp add: v pow2_def)
    then show ?thesis using fl_round_pow2 [of "53 + q"] q by simp
  qed
qed

lemma fl_round_err:
  assumes "0 < x" "- 1022 \<le> binexp x"
  shows "fl_round x \<le> x + pow2 (binexp x - 53)"
proof -
  define q where "q = quantum x"
  have q: "q = binexp x - 52" using assms by (simp add: q_def quantum_def abs_of_pos)
  have "of_int (round_half_even (x / pow2 q)) \<le> x / pow2 q + 1 / 2" using rhe_bounds by simp
  then have "of_int (round_half_even (x / pow2 q)) * pow2 q \<le> (x / pow2 q + 1 / 2) * pow2 q"
    using pow2_pos [of q] by (simp add: mult_right_mono)
  also have "\<dots> = x + pow2 q / 2" using pow2_pos [of q] by (simp add: field_simps)
  also have "pow2 q / 2 = pow2 (binexp x - 53)" using pow2_add [of "binexp x - 53" 1] by (simp add: q pow2_def)
  finally show ?thesis by (simp add: fl_round_pos_eq [OF assms(1)] q_def)
qed

lemma fl_round_rel_err:
  assumes "0 < x" "- 1022 \<le> binexp x"
  shows "fl_round x \<le> x + x / 2 ^ 53"
proof -
  have "pow2 (binexp x - 53) = pow2 (binexp x) / 2 ^ 53"
    using pow2_diff [of "binexp x" 53] by (simp add: pow2_def)
  also have "\<dots> \<le> x / 2 ^ 53" using binexp_bounds [OF assms(1)] by (simp add: divide_right_mono)
  finally show ?thesis using fl_round_err [OF assms] by simp
qed

text \<open>A float strictly above the rounding of \<open>x\<close> is strictly above \<open>x\<close>.\<close>

lemma fl_round_less_imp:
  assumes "0 \<le> y" "fl_round x < fl_round y"
  shows "x < fl_round y"
proof (rule ccontr)
  assume "\<not> x < fl_round y"
  then have "fl_round y \<le> x" by simp
  moreover have "0 \<le> fl_round y" using assms(1) by (rule fl_round_nonneg)
  ultimately have "fl_round (fl_round y) \<le> fl_round x" by (intro fl_round_mono)
  then show False using assms by (simp add: fl_round_idem)
qed

lemma int_truediv_Inr: "int_truediv a b = Inr r \<Longrightarrow> b \<noteq> 0 \<and> r = fl_round (of_int a / of_int b)"
  by (auto simp: int_truediv_def fl_def Let_def split: if_splits pyfloat.splits)

lemma float_of_int_small: "0 < n \<Longrightarrow> n < 2 ^ 53 \<Longrightarrow> float_of_int n = Inr (of_int n)"
proof -
  assume n: "0 < n" "n < 2 ^ 53"
  have "(of_int n :: rat) < of_int (2 ^ 53)" using n by (simp del: of_int_power)
  also have "\<dots> = pow2 53" by (simp add: pow2_def)
  finally have "binexp (of_int n) < 53" using n by (intro binexp_less) simp_all
  then show ?thesis using n by (simp add: float_of_int_def fl_def fl_round_int Let_def)
qed

lemma py_int_fl_Inr: "py_int (fl x) = Inr k \<Longrightarrow> 0 \<le> x \<Longrightarrow> k = \<lfloor>fl_round x\<rfloor>"
  using fl_round_nonneg [of x] by (auto simp: py_int_def fl_def Let_def split: if_splits pyfloat.splits)

lemma resize_bound:
  assumes pos: "0 < w" "0 < h" "0 < W" "0 < H"
    and small: "W < 2 ^ 52" "H < 2 ^ 52"
    and res: "calculate_aspect_ratio_resize (w, h) (W, H) = Inr (rw, rh)"
  shows "0 \<le> rw \<and> rw \<le> W \<and> 0 \<le> rh \<and> rh \<le> H"
proof -
  define x :: rat where "x = of_int W / of_int H"
  define a :: rat where "a = of_int w / of_int h"
  have xp: "0 < x" and ap: "0 < a" using pos by (simp_all add: x_def a_def)
  from res obtain oa ta where oa: "int_truediv w h = Inr oa" and ta: "int_truediv W H = Inr ta"
    by (auto simp: calculate_aspect_ratio_resize_def bind_exn_def split: sum.splits)
  have oa_eq: "oa = fl_round a" and ta_eq: "ta = fl_round x"
    using int_truediv_Inr [OF oa] int_truediv_Inr [OF ta] by (simp_all add: a_def x_def)
  have oa0: "0 \<le> oa" using ap by (simp add: oa_eq fl_round_nonneg)
  have fW: "float_of_int W = Inr (of_int W)" and fH: "float_of_int H = Inr (of_int H)"
    using pos small by (simp_all add: float_of_int_small)
  have Hx: "of_int H * x = (of_int W :: rat)" using pos by (simp add: x_def)
  show ?thesis
  proof (cases "oa > ta")
    case True
    then have oap: "0 < oa" using fl_round_nonneg [of x] xp by (simp add: ta_eq)
    from res True have k: "py_int (fl (of_int W / oa)) = Inr rh" and rw: "rw = W"
      using oap by (auto simp: calculate_aspect_ratio_resize_def bind_exn_def oa ta fW float_truediv_def split: sum.splits if_splits)
    have "x < oa" using True ap fl_round_less_imp [of a x] by (simp add: oa_eq ta_eq)
    then have "of_int W < of_int H * oa" using Hx pos by (metis mult_strict_left_mono of_int_0_less_iff)
    then have lt: "of_int W / oa \<le> of_int H" using oap by (simp add: pos_divide_le_eq)
    have nn: "(0::rat) \<le> of_int W / oa" using pos oap by simp
    have "fl_round (of_int W / oa) \<le> fl_round (of_int H)" using nn lt by (rule fl_round_mono)
    also have "\<dots> = of_int H" using pos small by (simp add: fl_round_int)
    finally have "\<lfloor>fl_round (of_int W / oa)\<rfloor> \<le> H" by (simp add: floor_le_iff)
    moreover have "0 \<le> \<lfloor>fl_round (of_int W / oa)\<rfloor>" using fl_round_nonneg [OF nn] by simp
    ultimately show ?thesis using py_int_fl_Inr [OF k nn] rw pos by simp
  next
    case False
    from res False have k: "py_int (fl (of_int H * oa)) = Inr rw" and rh: "rh = H"
      by (auto simp: calculate_aspect_ratio_resize_def bind_exn_def oa ta fH float_mul_def split: sum.splits if_splits)
    have nn: "(0::rat) \<le> of_int H * oa" using pos oa0 by simp
    have "pow2 (- 52) \<le> x"
    proof -
      have "(1::rat) \<le> of_int W" using pos by simp
      moreover have "(of_int H :: rat) \<le> 2 ^ 52" using small by (simp add: of_int_le_iff [symmetric] del: of_int_le_iff)
      ultimately have "1 / 2 ^ 52 \<le> (of_int W :: rat) / of_int H"
        using pos by (intro frac_le) simp_all
      then show ?thesis by (simp add: x_def pow2_def)
    qed
    then have "- 52 \<le> binexp x" by (rule binexp_ge)
    then have "ta \<le> x + x / 2 ^ 53" using fl_round_rel_err [OF xp] by (simp add: ta_eq)
    then have "of_int H * ta \<le> of_int H * (x + x / 2 ^ 53)" using pos by (simp add: mult_left_mono)
    also have "\<dots> = of_int W + of_int W / 2 ^ 53" using Hx by (simp add: distrib_left flip: Hx)
    also have "\<dots> \<le> of_int W + 1 / 2"
    proof -
      have "(of_int W :: rat) \<le> 2 ^ 52" using small by (simp add: of_int_le_iff [symmetric] del: of_int_le_iff)
      then show ?thesis by simp
    qed
    finally have "of_int H * ta \<le> of_int W + 1 / 2" .
    moreover have "of_int H * oa \<le> of_int H * ta" using False pos by (simp add: mult_left_mono)
    ultimately have "of_int H * oa \<le> of_int W + 1 / 2" by simp
    with nn have "fl_round (of_int H * oa) \<le> fl_round (of_int W + 1 / 2)" by (rule fl_round_mono)
    also have "\<dots> = of_int W + 1 / 2" using pos small by (simp add: fl_round_half)
    finally have "\<lfloor>fl_round (of_int H * oa)\<rfloor> \<le> W" by (simp add: floor_le_iff) 
    moreover have "0 \<le> \<lfloor>fl_round (of_int H * oa)\<rfloor>" using fl_round_nonneg [OF nn] by simp
    ultimately show ?thesis using py_int_fl_Inr [OF k nn] rh pos by simp
  qed
qed

lemma fl_finite:
  assumes "0 \<le> y" "y \<le> pow2 1023"
  shows "fl y = Finite (fl_round y)"
proof (cases "fl_round y = 0")
  case True then show ?thesis by (simp add: fl_def)
next
  case False
  then have p: "0 < fl_round y" using fl_round_nonneg [OF assms(1)] by simp
  have "fl_round y \<le> fl_round (pow2 1023)" using assms by (rule fl_round_mono)
  also have "\<dots> = pow2 1023" by (simp add: fl_round_pow2)
  also have "\<dots> < pow2 1024" by (rule pow2_strict_mono) simp
  finally have "binexp (fl_round y) < 1024" using p by (intro binexp_less)
  then show ?thesis using p by (simp add: fl_def Let_def abs_of_pos)
qed

lemma small_ratio:
  fixes a b :: int
  assumes "0 < a" "a < 2 ^ 52" "0 < b" "b < 2 ^ 52"
  shows "pow2 (- 52) \<le> of_int a / of_int b" "of_int a / of_int b \<le> pow2 52"
proof -
  have a: "(1::rat) \<le> of_int a" "(of_int a :: rat) \<le> 2 ^ 52"
    using assms by (simp_all add: of_int_le_iff [symmetric] del: of_int_le_iff)
  have b: "(1::rat) \<le> of_int b" "(of_int b :: rat) \<le> 2 ^ 52"
    using assms by (simp_all add: of_int_le_iff [symmetric] del: of_int_le_iff)
  have "1 / 2 ^ 52 \<le> (of_int a :: rat) / of_int b" using a b by (intro frac_le) simp_all
  then show "pow2 (- 52) \<le> of_int a / of_int b" by (simp add: pow2_def)
  have "(of_int a :: rat) / of_int b \<le> 2 ^ 52 / 1" using a b by (intro frac_le) simp_all
  then show "of_int a / of_int b \<le> pow2 52" by (simp add: pow2_def)
qed

lemma fl_round_small_ratio:
  fixes a b :: int
  assumes "0 < a" "a < 2 ^ 52" "0 < b" "b < 2 ^ 52"
  shows "pow2 (- 52) \<le> fl_round (of_int a / of_int b)" "fl_round (of_int a / of_int b) \<le> pow2 52"
proof -
  note r = small_ratio [OF assms]
  have "fl_round (pow2 (- 52)) \<le> fl_round (of_int a / of_int b)"
    using r(1) pow2_pos [of "- 52"] by (intro fl_round_mono) simp_all
  then show "pow2 (- 52) \<le> fl_round (of_int a / of_int b)" by (simp add: fl_round_pow2)
  have "fl_round (of_int a / of_int b) \<le> fl_round (pow2 52)"
    using r(2) assms by (intro fl_round_mono) simp_all
  then show "fl_round (of_int a / of_int b) \<le> pow2 52" by (simp add: fl_round_pow2)
qed

lemma int_truediv_small:
  assumes "0 < a" "a < 2 ^ 52" "0 < b" "b < 2 ^ 52"
  shows "int_truediv a b = Inr (fl_round (of_int a / of_int b))"
proof -
  have "of_int a / of_int b \<le> pow2 1023"
    using small_ratio(2) [OF assms] pow2_mono [of 52 1023] by simp
  moreover have "(0::rat) \<le> of_int a / of_int b" using assms by simp
  ultimately show ?thesis using assms by (simp add: int_truediv_def fl_finite)
qed

lemma resize_total:
  assumes w: "0 < w" "w < 2 ^ 52" and h: "0 < h" "h < 2 ^ 52"
    and W: "0 < W" "W < 2 ^ 52" and H: "0 < H" "H < 2 ^ 52"
  shows "calculate_aspect_ratio_resize (w, h) (W, H) = Inr (resize_rule (w, h) (W, H))"
proof -
  define oa where "oa = fl_round (of_int w / of_int h)"
  define ta where "ta = fl_round (of_int W / of_int H)"
  have oa: "pow2 (- 52) \<le> oa" "oa \<le> pow2 52"
    using fl_round_small_ratio [OF w h] by (simp_all add: oa_def)
  have oap: "0 < oa" using oa(1) pow2_pos [of "- 52"] by linarith
  have Wr: "(0::rat) < of_int W" "(of_int W :: rat) \<le> pow2 52"
    using W by (simp_all add: pow2_def of_int_le_iff [symmetric] del: of_int_le_iff)
  have Hr: "(0::rat) < of_int H" "(of_int H :: rat) \<le> pow2 52"
    using H by (simp_all add: pow2_def of_int_le_iff [symmetric] del: of_int_le_iff)
  have d: "of_int W / oa \<le> pow2 1023"
  proof -
    have "of_int W / oa \<le> pow2 52 / pow2 (- 52)"
      using Wr oa pow2_pos [of "- 52"] by (intro frac_le) simp_all
    also have "\<dots> = pow2 104" using pow2_diff [of 52 "- 52"] by simp
    also have "\<dots> \<le> pow2 1023" by (rule pow2_mono) simp
    finally show ?thesis .
  qed
  have m: "of_int H * oa \<le> pow2 1023"
  proof -
    have "of_int H * oa \<le> pow2 52 * pow2 52"
      using Hr oa oap by (intro mult_mono) simp_all
    also have "\<dots> = pow2 104" using pow2_add [of 52 52] by simp
    also have "\<dots> \<le> pow2 1023" by (rule pow2_mono) simp
    finally show ?thesis .
  qed
  have fd: "fl (of_int W / oa) = Finite (fl_round (of_int W / oa))"
    using d Wr oap by (intro fl_finite) simp_all
  have fm: "fl (of_int H * oa) = Finite (fl_round (of_int H * oa))"
    using m Hr oap by (intro fl_finite) simp_all
  have n1: "0 \<le> fl_round (of_int W / oa)" using Wr oap by (intro fl_round_nonneg) simp
  have n2: "0 \<le> fl_round (of_int H * oa)" using Hr oap by (intro fl_round_nonneg) simp
  have fW: "float_of_int W = Inr (of_int W)" and fH: "float_of_int H = Inr (of_int H)"
    using W H by (simp_all add: float_of_int_small)
  show ?thesis
    using oap n1 n2
    by (simp add: calculate_aspect_ratio_resize_def resize_rule_def bind_exn_def
        int_truediv_small [OF w h] int_truediv_small [OF W H] fW fH float_truediv_def float_mul_def
        fd fm py_int_def oa_def [symmetric] ta_def [symmetric] Let_def)
qed

lemma float_of_int_Inr: "float_of_int n = Inr r \<Longrightarrow> r = fl_round (of_int n)"
  by (auto simp: float_of_int_def fl_def Let_def split: if_splits pyfloat.splits)

lemma resize_nonneg:
  assumes pos: "0 < w" "0 < h" "0 < W" "0 < H"
    and res: "calculate_aspect_ratio_resize (w, h) (W, H) = Inr (rw, rh)"
  shows "0 \<le> rw \<and> 0 \<le> rh \<and> (rw = W \<or> rh = H)"
proof -
  from res obtain oa ta where oa: "int_truediv w h = Inr oa" and ta: "int_truediv W H = Inr ta"
    by (auto simp: calculate_aspect_ratio_resize_def bind_exn_def split: sum.splits)
  have oa0: "0 \<le> oa" using int_truediv_Inr [OF oa] pos by (simp add: fl_round_nonneg)
  show ?thesis
  proof (cases "oa > ta")
    case True
    from res True obtain tw where tw: "float_of_int W = Inr tw"
      and k: "py_int (fl (tw / oa)) = Inr rh" and rw: "rw = W"
      by (auto simp: calculate_aspect_ratio_resize_def bind_exn_def oa ta float_truediv_def split: sum.splits if_splits)
    have "0 \<le> tw" using float_of_int_Inr [OF tw] pos by (simp add: fl_round_nonneg)
    then have nn: "0 \<le> tw / oa" using oa0 by simp
    have "0 \<le> \<lfloor>fl_round (tw / oa)\<rfloor>" using fl_round_nonneg [OF nn] by simp
    then show ?thesis using py_int_fl_Inr [OF k nn] rw pos by simp
  next
    case False
    from res False obtain th where th: "float_of_int H = Inr th"
      and k: "py_int (fl (th * oa)) = Inr rw" and rh: "rh = H"
      by (auto simp: calculate_aspect_ratio_resize_def bind_exn_def oa ta float_mul_def split: sum.splits if_splits)
    have "0 \<le> th" using float_of_int_Inr [OF th] pos by (simp add: fl_round_nonneg)
    then have nn: "0 \<le> th * oa" using oa0 by simp
    have "0 \<le> \<lfloor>fl_round (th * oa)\<rfloor>" using fl_round_nonneg [OF nn] by simp
    then show ?thesis using py_int_fl_Inr [OF k nn] rh pos by simp
  qed
qed

lemma fit_800_600: "calculate_aspect_ratio_resize (800, 600) (512, 512) = Inr (512, 384)"
  by code_simp

lemma fit_300_600: "calculate_aspect_ratio_resize (300, 600) (512, 512) = Inr (256, 512)"
  by code_simp

text \<open>Rounding is visible on small inputs: in exact arithmetic \<open>49 * (1 / 49)\<close> is 1.\<close>

lemma fit_1_49: "calculate_aspect_ratio_resize (1, 49) (1, 49) = Inr (0, 49)"
  by code_simp

section \<open>The resizer\<close>

text \<open>
  C6. The claim: for all positive original dimensions and positive target boxes the
  result of \<open>calculate_aspect_ratio_resize\<close> follows the branch rule and fits the target
  box (the docstring: new dimensions that fit within \<open>target_size\<close>). The code breaks it
  by float rounding. For a 4 by 4 image and the target box 36028797018963967 by
  36028797018963968 (\<open>2 ^ 55 - 1\<close> by \<open>2 ^ 55\<close>) both aspect ratios are the float 1.0, the
  else branch computes \<open>int(float(2 ^ 55) * 1.0)\<close>, and the width returned is \<open>2 ^ 55\<close>,
  one more than the target width. Below \<open>2 ^ 53\<close> the same happens for the image and
  the box both 6755399441055745 by 6755399441055744: \<open>int(H * (W / H))\<close> rounds up to
  6755399441055746.
\<close>

theorem resize_exceeds_box:
  "calculate_aspect_ratio_resize (4, 4) (36028797018963967, 36028797018963968)
     = Inr (36028797018963968, 36028797018963968)
   \<and> \<not> (36028797018963968 \<le> (36028797018963967::int))
   \<and> calculate_aspect_ratio_resize (6755399441055745, 6755399441055744)
       (6755399441055745, 6755399441055744)
     = Inr (6755399441055746, 6755399441055744)
   \<and> \<not> (6755399441055746 \<le> (6755399441055745::int))"
  by code_simp

text \<open>
  Where the bound holds: for all positive original dimensions and target boxes below
  \<open>2 ^ 52\<close> the function returns (it raises nothing) the dimensions of the branch rule,
  computed in float arithmetic, and the result fits the target box.
  \<open>fit((800,600),(512,512)) = (512,384)\<close> and \<open>fit((300,600),(512,512)) = (256,512)\<close>.
\<close>

lemma resize_fits_box:
  assumes "0 < w" "w < 2 ^ 52" "0 < h" "h < 2 ^ 52"
    and "0 < W" "W < 2 ^ 52" "0 < H" "H < 2 ^ 52"
  shows "(\<exists>rw rh. calculate_aspect_ratio_resize (w, h) (W, H) = Inr (rw, rh)
            \<and> (rw, rh) = resize_rule (w, h) (W, H) \<and> rw \<le> W \<and> rh \<le> H)
         \<and> calculate_aspect_ratio_resize (800, 600) (512, 512) = Inr (512, 384)
         \<and> calculate_aspect_ratio_resize (300, 600) (512, 512) = Inr (256, 512)"
proof -
  obtain rw rh where r: "resize_rule (w, h) (W, H) = (rw, rh)"
    by (cases "resize_rule (w, h) (W, H)")
  have t: "calculate_aspect_ratio_resize (w, h) (W, H) = Inr (rw, rh)"
    using resize_total [OF assms] by (simp add: r)
  have "rw \<le> W \<and> rh \<le> H"
    using resize_bound [OF assms(1,3,5,7) assms(6,8) t] by simp
  with t r show ?thesis by (simp add: fit_800_600 fit_300_600)
qed

lemma resize_fits_box_example:
  "(0::int) < 1920 \<and> (1920::int) < 2 ^ 52 \<and> (0::int) < 1080 \<and> (1080::int) < 2 ^ 52
   \<and> (0::int) < 512 \<and> (512::int) < 2 ^ 52
   \<and> (\<exists>rw rh. calculate_aspect_ratio_resize (1920, 1080) (512, 512) = Inr (rw, rh)
         \<and> (rw, rh) = resize_rule (1920, 1080) (512, 512) \<and> rw \<le> 512 \<and> rh \<le> 512)"
  using resize_fits_box [of 1920 1080 512 512] by simp

text \<open>
  C7, as amended. For all positive original dimensions and positive target boxes, the
  dimensions that \<open>calculate_aspect_ratio_resize\<close> returns are integers that are not
  negative, and one of them is the (positive) target dimension of its axis; the other
  one can be zero.
\<close>

theorem resize_dims_nonneg:
  assumes "0 < w" "0 < h" "0 < W" "0 < H"
    and "calculate_aspect_ratio_resize (w, h) (W, H) = Inr (rw, rh)"
  shows "0 \<le> rw \<and> 0 \<le> rh \<and> (rw = W \<or> rh = H)"
  using assms by (rule resize_nonneg)

theorem resize_dims_nonneg_witness:
  "(0::int) < 1 \<and> (0::int) < 49
   \<and> calculate_aspect_ratio_resize (1, 49) (1, 49) = Inr (0, 49)
   \<and> (0::int) \<le> 0 \<and> (0::int) \<le> 49 \<and> ((0::int) = 1 \<or> (49::int) = 49)"
  using resize_dims_nonneg [of 1 49 1 49 0 49] fit_1_49 by simp

text \<open>
  C7 as stated fails: a 1 by 1000 image in a 512 by 512 box gets the width
  \<open>int(512 * 0.001) = 0\<close>.
\<close>

theorem resize_zero_width_counterexample:
  "calculate_aspect_ratio_resize (1, 1000) (512, 512) = Inr (0, 512)"
  by code_simp

section \<open>Properties of the file system\<close>

lemma lookup_put_node [simp]: "lookup (put_node p n s) q = (if q = p then Some n else lookup s q)"
  by (simp add: lookup_def put_node_def update_conv')

lemma lookup_del_node [simp]: "lookup (del_node p s) q = (if q = p then None else lookup s q)"
  by (simp add: lookup_def del_node_def delete_conv')

lemma lookup_snapshot [simp]: "lookup (snapshot s) q = lookup s q"
  by (simp add: lookup_def snapshot_def)

lemma lookup_log_op [simp]: "lookup (log_op x s) q = lookup s q"
  by (simp add: lookup_def log_op_def snapshot_def)

lemma oplog_put_node [simp]: "oplog (put_node p n s) = oplog s"
  by (simp add: put_node_def)

lemma oplog_del_node [simp]: "oplog (del_node p s) = oplog s"
  by (simp add: del_node_def)

lemma oplog_snapshot [simp]: "oplog (snapshot s) = oplog s"
  by (simp add: snapshot_def)

lemma oplog_log_op [simp]: "oplog (log_op x s) = oplog s @ [x]"
  by (simp add: log_op_def snapshot_def)

lemma temp_path_neq: "temp_path_of outp \<noteq> outp"
proof (cases "outp = []")
  case True then show ?thesis by (simp add: temp_path_of_def)
next
  case False
  then have "outp = butlast outp @ [last outp]" by simp
  moreover have "''_temp_'' @ last outp \<noteq> last outp" by (simp add: append_eq_conv_conj) 
  ultimately show ?thesis using False
    by (metis temp_path_of_def path_name_def append1_eq_conv)
qed

lemma butlast_temp_path [simp]: "butlast (temp_path_of outp) = butlast outp"
  by (simp add: temp_path_of_def)

text \<open>What the system calls do when they succeed.\<close>

lemma open_write_Inr:
  assumes "open_write s p = Inr s1"
  shows "s1 = log_op (OpWrite p) (put_node p (File []) s)" "is_dir s (butlast p)" "\<not> is_dir s p"
  using assms by (auto simp: open_write_def parent_error_def is_dir_def split: option.splits node.splits if_splits)

lemma open_write_ok:
  assumes "is_dir s (butlast p)" "\<not> is_dir s p"
  shows "open_write s p = Inr (log_op (OpWrite p) (put_node p (File []) s))"
  using assms by (auto simp: open_write_def parent_error_def is_dir_def split: option.splits node.splits)

lemma unlink_file:
  assumes "lookup s p = Some (File b)"
  shows "unlink s p = Inr (log_op (OpUnlink p) (del_node p s))"
  using assms by (simp add: unlink_def stat_def)

lemma rename_file:
  assumes "lookup s src = Some (File b)" "is_dir s (butlast dst)" "\<not> is_dir s dst"
  shows "rename s src dst = Inr (log_op (OpRename src dst) (put_node dst (File b) (del_node src s)))"
  using assms by (auto simp: rename_def stat_def parent_error_def is_dir_def split: option.splits node.splits)

lemma getsize_file: "lookup s p = Some (File b) \<Longrightarrow> getsize d s p = Inr (length b)"
  by (simp add: getsize_def stat_def)

section \<open>The auto policy keeps the smallest candidate\<close>

lemma image_save_Encoded:
  assumes "encode env img fmt kw p = Encoded b" "is_dir s (butlast p)" "\<not> is_dir s p"
  shows "image_save env s img p fmt kw
     = (None, snapshot (put_node p (File b) (log_op (OpWrite p) (put_node p (File []) s))))"
  using assms by (simp add: image_save_def open_write_ok)

lemma image_save_failed:
  assumes "\<forall>b. encode env img fmt kw p \<noteq> Encoded b" "\<not> is_dir s p"
  shows "\<exists>e s1. image_save env s img p fmt kw = (Some e, s1)
           \<and> (\<forall>q. q \<noteq> p \<longrightarrow> lookup s1 q = lookup s q) \<and> \<not> is_dir s1 p"
  using assms
  by (cases "encode env img fmt kw p")
     (auto simp: image_save_def open_write_def is_dir_def split: option.splits sum.splits if_splits)

lemma try_candidate_step:
  fixes env img outp
  defines "temp \<equiv> temp_path_of outp"
  assumes par: "is_dir s (butlast outp)" and nt: "\<not> is_dir s temp"
    and best: "best = best_of env img outp cur"
    and out: "lookup s outp = out_node env img outp cur"
  shows "\<exists>s'. try_candidate env img outp temp best s c
             = (None, best_of env img outp (select_smallest env img outp cur [c]), s')
          \<and> lookup s' outp = out_node env img outp (select_smallest env img outp cur [c])
          \<and> lookup s' temp = None
          \<and> (\<forall>q. q \<noteq> outp \<longrightarrow> q \<noteq> temp \<longrightarrow> lookup s' q = lookup s q)"
proof -
  have neq: "temp \<noteq> outp" by (simp add: temp_def temp_path_neq)
  have bt: "butlast temp = butlast outp" by (simp add: temp_def)
  have nout: "\<not> is_dir s outp"
    using out by (cases cur) (simp_all add: is_dir_def out_node_def)
  have pne: "butlast outp \<noteq> outp" using par nout by auto
  have pnt: "butlast outp \<noteq> temp"
    by (metis bt length_butlast diff_less length_greater_0_conv less_irrefl zero_less_one butlast.simps(1) par nt)
  show ?thesis
  proof (cases "candidate_result env img outp c")
    case (Encoded b)
    then have enc: "encode env img (Some ''WEBP'') (snd c) temp = Encoded b"
      by (simp add: candidate_result_def temp_def)
    have cb: "candidate_bytes env img outp c = b" "candidate_encoded env img outp c"
      using Encoded by (simp_all add: candidate_bytes_def candidate_encoded_def)
    define s1 where
      "s1 = snapshot (put_node temp (File b) (log_op (OpWrite temp) (put_node temp (File []) s)))"
    have sv: "image_save env s img temp (Some ''WEBP'') (snd c) = (None, s1)"
      using image_save_Encoded [OF enc] par nt by (simp add: bt s1_def)
    have l1: "\<And>q. lookup s1 q = (if q = temp then Some (File b) else lookup s q)"
      by (simp add: s1_def)
    have gs: "getsize (dir_size env) s1 temp = Inr (length b)"
      by (rule getsize_file) (simp add: l1)
    show ?thesis
    proof (cases cur)
      case None
      have ne: "\<not> path_exists s1 outp" using out None neq by (simp add: path_exists_def l1 out_node_def)
      have rn: "rename s1 temp outp = Inr (log_op (OpRename temp outp) (put_node outp (File b) (del_node temp s1)))"
        using par pnt nout neq by (intro rename_file) (simp_all add: l1 is_dir_def)
      show ?thesis
        using neq by (simp add: try_candidate_def candidate_body_def sv gs best None best_of_def ne rn cb l1 Let_def out_node_def)
    next
      case (Some c0)
      define b0 where "b0 = candidate_bytes env img outp c0"
      have o0: "lookup s outp = Some (File b0)" using out Some by (simp add: out_node_def b0_def)
      show ?thesis
      proof (cases "length b < length b0")
        case True
        have ex: "path_exists s1 outp" using o0 neq by (simp add: path_exists_def l1)
        have ul: "unlink s1 outp = Inr (log_op (OpUnlink outp) (del_node outp s1))"
          using o0 neq by (intro unlink_file [of _ _ b0]) (simp add: l1)
        define s2 where "s2 = log_op (OpUnlink outp) (del_node outp s1)"
        have l2: "\<And>q. lookup s2 q = (if q = outp then None else lookup s1 q)" by (simp add: s2_def)
        have rn: "rename s2 temp outp = Inr (log_op (OpRename temp outp) (put_node outp (File b) (del_node temp s2)))"
          using par pnt pne neq by (intro rename_file) (simp_all add: l2 l1 is_dir_def)
        show ?thesis
          using neq True
          by (simp add: try_candidate_def candidate_body_def sv gs best Some best_of_def ex ul
              s2_def [symmetric] rn cb l1 l2 Let_def out_node_def b0_def [symmetric])
      next
        case False
        have ul: "unlink s1 temp = Inr (log_op (OpUnlink temp) (del_node temp s1))"
          by (intro unlink_file [of _ _ b]) (simp add: l1)
        show ?thesis
          using neq False o0
          by (simp add: try_candidate_def candidate_body_def sv gs best Some best_of_def ul cb l1
              Let_def out_node_def b0_def [symmetric])
      qed
    qed
  next
    case (FailBeforeOpen e)
    then have ne: "\<forall>b. encode env img (Some ''WEBP'') (snd c) temp \<noteq> Encoded b"
      by (simp add: candidate_result_def temp_def)
    have cb: "\<not> candidate_encoded env img outp c" using FailBeforeOpen by (simp add: candidate_encoded_def)
    from image_save_failed [OF ne nt] obtain e1 s1 where
      sv: "image_save env s img temp (Some ''WEBP'') (snd c) = (Some e1, s1)"
      and l1: "\<And>q. q \<noteq> temp \<Longrightarrow> lookup s1 q = lookup s q" and nd: "\<not> is_dir s1 temp" by blast
    show ?thesis
    proof (cases "lookup s1 temp")
      case None
      then show ?thesis using neq out l1
        by (simp add: try_candidate_def candidate_body_def sv path_exists_def cb best)
    next
      case (Some n)
      then obtain b1 where f: "lookup s1 temp = Some (File b1)" using nd by (cases n) (simp_all add: is_dir_def)
      show ?thesis using neq out l1 f
        by (simp add: try_candidate_def candidate_body_def sv path_exists_def cb best unlink_file [OF f])
    qed
  next
    case (FailAfterOpen e left)
    then have ne: "\<forall>b. encode env img (Some ''WEBP'') (snd c) temp \<noteq> Encoded b"
      by (simp add: candidate_result_def temp_def)
    have cb: "\<not> candidate_encoded env img outp c" using FailAfterOpen by (simp add: candidate_encoded_def)
    from image_save_failed [OF ne nt] obtain e1 s1 where
      sv: "image_save env s img temp (Some ''WEBP'') (snd c) = (Some e1, s1)"
      and l1: "\<And>q. q \<noteq> temp \<Longrightarrow> lookup s1 q = lookup s q" and nd: "\<not> is_dir s1 temp" by blast
    show ?thesis
    proof (cases "lookup s1 temp")
      case None
      then show ?thesis using neq out l1
        by (simp add: try_candidate_def candidate_body_def sv path_exists_def cb best)
    next
      case (Some n)
      then obtain b1 where f: "lookup s1 temp = Some (File b1)" using nd by (cases n) (simp_all add: is_dir_def)
      show ?thesis using neq out l1 f
        by (simp add: try_candidate_def candidate_body_def sv path_exists_def cb best unlink_file [OF f])
    qed
  qed
qed

lemma parent_not_temp:
  assumes "is_dir s (butlast outp)" "\<not> is_dir s (temp_path_of outp)"
  shows "butlast outp \<noteq> temp_path_of outp"
  using assms by auto

lemma webp_loop_spec:
  assumes "is_dir s (butlast outp)" "\<not> is_dir s (temp_path_of outp)"
    and "best = best_of env img outp cur"
    and "lookup s outp = out_node env img outp cur"
  shows "\<exists>s'. webp_loop env img outp (temp_path_of outp) best s cands
             = (None, best_of env img outp (select_smallest env img outp cur cands), s')
          \<and> lookup s' outp = out_node env img outp (select_smallest env img outp cur cands)
          \<and> (cands \<noteq> [] \<longrightarrow> lookup s' (temp_path_of outp) = None)
          \<and> (\<forall>q. q \<noteq> outp \<longrightarrow> q \<noteq> temp_path_of outp \<longrightarrow> lookup s' q = lookup s q)"
  using assms
proof (induction cands arbitrary: s best cur)
  case Nil
  then show ?case by simp
next
  case (Cons c cs)
  define cur1 where "cur1 = select_smallest env img outp cur [c]"
  from try_candidate_step [OF Cons.prems(1,2,3,4), of c]
  obtain s1 where t: "try_candidate env img outp (temp_path_of outp) best s c
        = (None, best_of env img outp cur1, s1)"
    and o1: "lookup s1 outp = out_node env img outp cur1"
    and t1: "lookup s1 (temp_path_of outp) = None"
    and r1: "\<And>q. q \<noteq> outp \<Longrightarrow> q \<noteq> temp_path_of outp \<Longrightarrow> lookup s1 q = lookup s q"
    unfolding cur1_def by blast
  have nout: "\<not> is_dir s outp"
    using Cons.prems(4) by (cases cur) (simp_all add: is_dir_def out_node_def)
  have "butlast outp \<noteq> outp" using Cons.prems(1) nout by auto
  moreover have "butlast outp \<noteq> temp_path_of outp"
    using Cons.prems(1,2) by (rule parent_not_temp)
  ultimately have par1: "is_dir s1 (butlast outp)" using Cons.prems(1) r1 by (simp add: is_dir_def)
  have nt1: "\<not> is_dir s1 (temp_path_of outp)" using t1 by (simp add: is_dir_def)
  from Cons.IH [OF par1 nt1 refl o1]
  obtain s' where l: "webp_loop env img outp (temp_path_of outp) (best_of env img outp cur1) s1 cs
        = (None, best_of env img outp (select_smallest env img outp cur1 cs), s')"
    and o': "lookup s' outp = out_node env img outp (select_smallest env img outp cur1 cs)"
    and t': "cs \<noteq> [] \<longrightarrow> lookup s' (temp_path_of outp) = None"
    and r': "\<And>q. q \<noteq> outp \<Longrightarrow> q \<noteq> temp_path_of outp \<Longrightarrow> lookup s' q = lookup s1 q"
    by blast
  have sel: "select_smallest env img outp cur (c # cs) = select_smallest env img outp cur1 cs"
    by (simp add: cur1_def)
  have tt: "lookup s' (temp_path_of outp) = None"
  proof (cases cs)
    case Nil
    with l have "s' = s1" by simp
    then show ?thesis using t1 by simp
  next
    case (Cons a list)
    then show ?thesis using t' by simp
  qed
  show ?case
    using t l o' tt r' r1 by (simp add: sel del: select_smallest.simps)
qed

lemma select_smallest_sound:
  assumes "select_smallest env img outp cur cs = Some c"
  shows "(cur = Some c \<or> (c \<in> set cs \<and> candidate_encoded env img outp c))
       \<and> (\<forall>c0. cur = Some c0 \<longrightarrow>
             length (candidate_bytes env img outp c) \<le> length (candidate_bytes env img outp c0))
       \<and> (\<forall>c' \<in> set cs. candidate_encoded env img outp c' \<longrightarrow>
             length (candidate_bytes env img outp c) \<le> length (candidate_bytes env img outp c'))"
  using assms
proof (induction cs arbitrary: cur)
  case Nil
  then show ?case by simp
next
  case (Cons a cs)
  let ?cur1 = "if candidate_encoded env img outp a
           \<and> (case cur of None \<Rightarrow> True
               | Some c0 \<Rightarrow> length (candidate_bytes env img outp a)
                             < length (candidate_bytes env img outp c0))
        then Some a else cur"
  from Cons.prems have "select_smallest env img outp ?cur1 cs = Some c" by simp
  note ih = Cons.IH [OF this]
  show ?case
  proof (cases "candidate_encoded env img outp a
           \<and> (case cur of None \<Rightarrow> True
               | Some c0 \<Rightarrow> length (candidate_bytes env img outp a)
                             < length (candidate_bytes env img outp c0))")
    case True
    then have c1: "?cur1 = Some a" by simp
    have le: "length (candidate_bytes env img outp c) \<le> length (candidate_bytes env img outp a)"
      using ih c1 by simp
    show ?thesis
    proof (cases cur)
      case None
      then show ?thesis using ih True le unfolding c1 by auto
    next
      case (Some c0)
      then have "length (candidate_bytes env img outp c) \<le> length (candidate_bytes env img outp c0)"
        using True le by simp
      then show ?thesis using ih True le Some unfolding c1 by auto
    qed
  next
    case False
    then have c1: "?cur1 = cur" by auto
    have "candidate_encoded env img outp a \<Longrightarrow>
        length (candidate_bytes env img outp c) \<le> length (candidate_bytes env img outp a)"
    proof -
      assume e: "candidate_encoded env img outp a"
      with False obtain c0 where c0: "cur = Some c0"
        "\<not> length (candidate_bytes env img outp a) < length (candidate_bytes env img outp c0)"
        by (cases cur) auto
      with ih have "length (candidate_bytes env img outp c) \<le> length (candidate_bytes env img outp c0)"
        unfolding c1 by simp
      with c0 show ?thesis by simp
    qed
    then show ?thesis using ih unfolding c1 by auto
  qed
qed

lemma select_smallest_exists:
  assumes "cur \<noteq> None \<or> (\<exists>c \<in> set cs. candidate_encoded env img outp c)"
  shows "select_smallest env img outp cur cs \<noteq> None"
  using assms
proof (induction cs arbitrary: cur)
  case Nil
  then show ?case by simp
next
  case (Cons a cs)
  let ?cur1 = "if candidate_encoded env img outp a
           \<and> (case cur of None \<Rightarrow> True
               | Some c0 \<Rightarrow> length (candidate_bytes env img outp a)
                             < length (candidate_bytes env img outp c0))
        then Some a else cur"
  have "?cur1 \<noteq> None \<or> (\<exists>c \<in> set cs. candidate_encoded env img outp c)"
    using Cons.prems by (cases cur) auto
  from Cons.IH [OF this] show ?case by simp
qed

text \<open>Ties keep the earlier candidate.\<close>

lemma select_smallest_keeps:
  assumes "select_smallest env img outp (Some c1) cs = Some c"
  shows "c = c1 \<or> length (candidate_bytes env img outp c) < length (candidate_bytes env img outp c1)"
  using assms
proof (induction cs arbitrary: c1)
  case Nil
  then show ?case by simp
next
  case (Cons a cs)
  show ?case
  proof (cases "candidate_encoded env img outp a
      \<and> length (candidate_bytes env img outp a) < length (candidate_bytes env img outp c1)")
    case True
    with Cons.prems have "select_smallest env img outp (Some a) cs = Some c" by simp
    from Cons.IH [OF this] True show ?thesis by auto
  next
    case False
    with Cons.prems have "select_smallest env img outp (Some c1) cs = Some c" by auto
    from Cons.IH [OF this] show ?thesis .
  qed
qed

lemma candidate_succeeds_iff:
  assumes "is_dir s (butlast outp)" "\<not> is_dir s (temp_path_of outp)"
  shows "candidate_succeeds env s img outp c = candidate_encoded env img outp c"
  using assms
  by (cases "candidate_result env img outp c")
     (auto simp: candidate_succeeds_def candidate_encoded_def candidate_result_def image_save_def
       open_write_ok split: option.splits)

lemma candidate_succeeds_dirs:
  assumes "candidate_succeeds env s img outp c"
  shows "is_dir s (butlast outp) \<and> \<not> is_dir s (temp_path_of outp)"
  using assms open_write_Inr(2,3) [of s "temp_path_of outp"]
  by (cases "encode env img (Some ''WEBP'') (snd c) (temp_path_of outp)")
     (auto simp: candidate_succeeds_def image_save_def split: sum.splits option.splits)

section \<open>The calls a conversion makes\<close>

lemma only_ops_refl [simp]: "only_ops P s s"
  by (simp add: only_ops_def)

lemma only_ops_trans: "only_ops P s s1 \<Longrightarrow> only_ops P s1 s2 \<Longrightarrow> only_ops P s s2"
  by (auto simp: only_ops_def)

lemma only_ops_mono: "only_ops P s s' \<Longrightarrow> (\<And>x. P x \<Longrightarrow> Q x) \<Longrightarrow> only_ops Q s s'"
  by (auto simp: only_ops_def list_all_iff)

lemma only_ops_log: "only_ops P s s' \<Longrightarrow> P x \<Longrightarrow> only_ops P s (log_op x s')"
  by (auto simp: only_ops_def log_op_def)

lemma only_ops_snapshot [simp]: "only_ops P s (snapshot s') = only_ops P s s'"
  by (simp add: only_ops_def)

lemma only_ops_put [simp]: "only_ops P s (put_node p n s') = only_ops P s s'"
  by (simp add: only_ops_def)

lemma only_ops_del [simp]: "only_ops P s (del_node p s') = only_ops P s s'"
  by (simp add: only_ops_def)

lemma os_mkdir_Inr:
  assumes "os_mkdir s p = Inr s'"
  shows "s' = log_op (OpMkdir p) (put_node p (Dir (clock s)) s)" "lookup s p = None"
  using assms by (auto simp: os_mkdir_def path_exists_def split: option.splits if_splits)

lemma os_mkdir_root: "os_mkdir s [] \<noteq> Inr s'"
  by (auto simp: os_mkdir_def parent_error_def path_exists_def split: option.splits node.splits)

lemma grows_refl [simp]: "grows p s s"
  by (simp add: grows_def)

lemma grows_trans:
  assumes "grows p s s1" "grows p' s1 s2" "prefix p p'"
  shows "grows p' s s2"
proof -
  have "lookup s2 q = lookup s q \<or> (lookup s q = None \<and> is_dir s2 q \<and> prefix q p')" for q
  proof -
    from assms(1) have a: "lookup s1 q = lookup s q \<or> (lookup s q = None \<and> is_dir s1 q \<and> prefix q p)"
      by (simp add: grows_def)
    from assms(2) have b: "lookup s2 q = lookup s1 q \<or> (lookup s1 q = None \<and> is_dir s2 q \<and> prefix q p')"
      by (simp add: grows_def)
    from a b assms(3) show ?thesis by (auto simp: is_dir_def)
  qed
  moreover have "only_ops (\<lambda>x. \<exists>d. x = OpMkdir d) s s2"
    using assms by (auto simp: grows_def intro: only_ops_trans)
  ultimately show ?thesis by (simp add: grows_def)
qed

lemma os_mkdir_grows: "os_mkdir s p = Inr s' \<Longrightarrow> grows p s s' \<and> is_dir s' p"
  using os_mkdir_Inr [of s p s'] by (auto simp: grows_def is_dir_def intro!: only_ops_log)

lemma mkdir_exist_ok_grows:
  "mkdir_exist_ok s p = (r, s') \<Longrightarrow> grows p s s' \<and> (r = None \<longrightarrow> is_dir s' p)"
  using os_mkdir_grows [of s p]
  by (auto simp: mkdir_exist_ok_def split: sum.splits if_splits)

declare mkdir_parents.simps [simp del]

lemma mkdir_parents_grows:
  "mkdir_parents s p = (r, s') \<Longrightarrow> grows p s s' \<and> (r = None \<longrightarrow> is_dir s' p)"
proof (induction s p arbitrary: r s' rule: mkdir_parents.induct)
  case (1 s p)
  show ?case
  proof (cases "os_mkdir s p")
    case (Inr s1)
    with "1.prems" os_mkdir_grows [OF Inr] show ?thesis by (simp add: mkdir_parents.simps [of s p])
  next
    case (Inl e)
    show ?thesis
    proof (cases "e = FileNotFoundError \<and> p \<noteq> []")
      case False
      with "1.prems" Inl show ?thesis by (auto simp: mkdir_parents.simps [of s p] split: if_splits)
    next
      case True
      obtain r1 s1 where m: "mkdir_parents s (butlast p) = (r1, s1)"
        by (cases "mkdir_parents s (butlast p)")
      from "1.IH" [OF Inl _ _ m] True have g1: "grows (butlast p) s s1" by simp
      have pp: "prefix (butlast p) p" by (simp add: prefixeq_butlast)
      show ?thesis
      proof (cases r1)
        case (Some e1)
        with "1.prems" Inl True m have "r = Some e1" "s' = s1" by (auto simp: mkdir_parents.simps [of s p])
        moreover have "grows p s1 s1" by simp
        ultimately show ?thesis using grows_trans [OF g1 _ pp] by auto
      next
        case None
        with "1.prems" Inl True m have "mkdir_exist_ok s1 p = (r, s')" by (auto simp: mkdir_parents.simps [of s p])
        from mkdir_exist_ok_grows [OF this] grows_trans [OF g1 _ pp] show ?thesis by auto
      qed
    qed
  qed
qed

text \<open>What is seen at a path while the calls are made.\<close>

lemma seen_put_node [simp]: "seen (put_node p n s) = seen s"
  by (simp add: put_node_def)

lemma seen_del_node [simp]: "seen (del_node p s) = seen s"
  by (simp add: del_node_def)

lemma seen_snapshot: "seen (snapshot s) = seen s @ [nodes s]"
  by (simp add: snapshot_def)

lemma seen_log_op: "seen (log_op x s) = seen s @ [nodes s]"
  by (simp add: log_op_def snapshot_def)

lemma stays_refl: "Q (lookup s outp) \<Longrightarrow> stays outp Q s s"
  by (simp add: stays_def)

lemma stays_trans: "stays outp Q s s1 \<Longrightarrow> stays outp Q s1 s2 \<Longrightarrow> stays outp Q s s2"
  by (auto simp: stays_def)

lemma stays_mono: "stays outp P s s' \<Longrightarrow> (\<And>n. P n \<Longrightarrow> Q n) \<Longrightarrow> stays outp Q s s'"
  by (auto simp: stays_def list_all_iff)

lemma stays_final: "stays outp Q s s' \<Longrightarrow> Q (lookup s' outp)"
  by (simp add: stays_def)

lemma stays_snapshot: "Q (lookup s outp) \<Longrightarrow> stays outp Q s (snapshot s)"
  by (simp add: stays_def seen_snapshot lookup_def snapshot_def)

lemma stays_log_op:
  "seen s1 = seen s \<Longrightarrow> Q (lookup s1 outp) \<Longrightarrow> stays outp Q s (log_op x s1)"
  by (simp add: stays_def seen_log_op lookup_def log_op_def snapshot_def)

lemma os_mkdir_untouched:
  assumes "os_mkdir s p = Inr s'" "p \<noteq> outp"
  shows "stays outp (\<lambda>n. n = lookup s outp) s s'"
  using os_mkdir_Inr(1) [OF assms(1)] assms(2) by (simp add: stays_log_op)

lemma mkdir_exist_ok_untouched:
  assumes "mkdir_exist_ok s p = (r, s')" "p \<noteq> outp"
  shows "stays outp (\<lambda>n. n = lookup s outp) s s'"
  using assms os_mkdir_untouched [of s p _ outp]
  by (auto simp: mkdir_exist_ok_def stays_refl split: sum.splits if_splits)

text \<open>Creating the directory of the output path makes directories above the output
  path only, and leaves the output path as it is.\<close>

lemma os_mkdir_above:
  assumes "os_mkdir s p = Inr s'" "prefix p (butlast outp)"
  shows "strict_prefix p outp"
proof -
  from assms(1) os_mkdir_root have "p \<noteq> []" by auto
  with assms(2) have "butlast outp \<noteq> []" by auto
  then have "outp \<noteq> []" by auto
  then have "strict_prefix (butlast outp) outp"
    by (metis append_butlast_last_id not_Cons_self2 prefixI self_append_conv strict_prefix_def)
  with assms(2) show ?thesis by (auto simp: strict_prefix_def dest: prefix_order.trans)
qed

lemma mkdir_exist_ok_above:
  assumes "mkdir_exist_ok s p = (r, s')" "prefix p (butlast outp)"
  shows "stays outp (\<lambda>n. n = lookup s outp) s s'
     \<and> only_ops (\<lambda>x. \<exists>d. x = OpMkdir d \<and> strict_prefix d outp) s s'"
proof (cases "os_mkdir s p")
  case (Inr s1)
  from os_mkdir_above [OF Inr assms(2)] have sp: "strict_prefix p outp" .
  then have "p \<noteq> outp" by auto
  from os_mkdir_untouched [OF Inr this] Inr assms(1) sp os_mkdir_Inr(1) [OF Inr]
  show ?thesis by (auto simp: mkdir_exist_ok_def intro!: only_ops_log)
next
  case (Inl e)
  with assms(1) have "s' = s" by (auto simp: mkdir_exist_ok_def split: if_splits)
  then show ?thesis by (simp add: stays_refl)
qed

lemma mkdir_parents_above:
  "mkdir_parents s p = (r, s') \<Longrightarrow> prefix p (butlast outp) \<Longrightarrow>
     stays outp (\<lambda>n. n = lookup s outp) s s'
     \<and> only_ops (\<lambda>x. \<exists>d. x = OpMkdir d \<and> strict_prefix d outp) s s'"
proof (induction s p arbitrary: r s' rule: mkdir_parents.induct)
  case (1 s p)
  show ?case
  proof (cases "os_mkdir s p")
    case (Inr s1)
    then have "mkdir_exist_ok s p = (None, s1)" by (simp add: mkdir_exist_ok_def)
    from mkdir_exist_ok_above [OF this "1.prems"(2)] Inr "1.prems"(1)
    show ?thesis by (simp add: mkdir_parents.simps [of s p])
  next
    case (Inl e)
    show ?thesis
    proof (cases "e = FileNotFoundError \<and> p \<noteq> []")
      case False
      with "1.prems" Inl have "s' = s" by (auto simp: mkdir_parents.simps [of s p] split: if_splits)
      then show ?thesis by (simp add: stays_refl)
    next
      case True
      obtain r1 s1 where m: "mkdir_parents s (butlast p) = (r1, s1)"
        by (cases "mkdir_parents s (butlast p)")
      have pp: "prefix (butlast p) (butlast outp)"
        using "1.prems"(2) prefixeq_butlast [of p] by (rule prefix_order.trans [rotated])
      from "1.IH" [OF Inl _ _ m pp] True
      have g1: "stays outp (\<lambda>n. n = lookup s outp) s s1"
        and o1: "only_ops (\<lambda>x. \<exists>d. x = OpMkdir d \<and> strict_prefix d outp) s s1" by simp_all
      from stays_final [OF g1] have l1: "lookup s1 outp = lookup s outp" .
      show ?thesis
      proof (cases r1)
        case (Some e1)
        with "1.prems" Inl True m have "s' = s1" by (auto simp: mkdir_parents.simps [of s p])
        with g1 o1 show ?thesis by simp
      next
        case None
        with "1.prems" Inl True m have "mkdir_exist_ok s1 p = (r, s')"
          by (auto simp: mkdir_parents.simps [of s p])
        from mkdir_exist_ok_above [OF this "1.prems"(2)] l1
        have "stays outp (\<lambda>n. n = lookup s outp) s1 s'"
          and "only_ops (\<lambda>x. \<exists>d. x = OpMkdir d \<and> strict_prefix d outp) s1 s'" by simp_all
        with g1 o1 show ?thesis by (auto intro: stays_trans only_ops_trans)
      qed
    qed
  qed
qed

lemma open_write_ops: "open_write s p = Inr s' \<Longrightarrow> only_ops (\<lambda>x. x = OpWrite p) s s'"
  by (auto simp: open_write_def split: option.splits if_splits intro!: only_ops_log)

lemma unlink_ops: "unlink s p = Inr s' \<Longrightarrow> only_ops (\<lambda>x. x = OpUnlink p) s s'"
  by (auto simp: unlink_def split: sum.splits node.splits intro!: only_ops_log)

lemma only_ops_move [simp]: "only_ops P s (move_tree a b s') = only_ops P s s'"
  by (simp add: only_ops_def move_tree_def)

lemma rename_ops: "rename s src dst = Inr s' \<Longrightarrow> only_ops (\<lambda>x. x = OpRename src dst) s s'"
  by (auto simp: rename_def split: sum.splits node.splits option.splits if_splits intro!: only_ops_log)

lemma image_save_ops:
  "image_save env s img p fmt kw = (r, s') \<Longrightarrow>
     only_ops (\<lambda>x. x = OpWrite p \<or> x = OpUnlink p) s s'"
proof -
  assume a: "image_save env s img p fmt kw = (r, s')"
  have o: "only_ops (\<lambda>x. x = OpWrite p \<or> x = OpUnlink p) s s1" if "open_write s p = Inr s1" for s1
    using open_write_ops [OF that] by (rule only_ops_mono) simp
  show ?thesis
    using a o
    by (auto simp: image_save_def split: save_result.splits sum.splits option.splits
        intro!: only_ops_log)
qed

lemma candidate_body_ops:
  assumes "candidate_body env img outp (temp_path_of outp) best s c = (r, best', s')"
  shows "only_ops (auto_op outp) s s'"
proof -
  obtain r1 s1 where sv: "image_save env s img (temp_path_of outp) (Some ''WEBP'') (snd c) = (r1, s1)"
    by (cases "image_save env s img (temp_path_of outp) (Some ''WEBP'') (snd c)")
  have o1: "only_ops (auto_op outp) s s1"
    using image_save_ops [OF sv] by (rule only_ops_mono) (auto simp: auto_op_def)
  have u: "\<And>a b p. unlink a p = Inr b \<Longrightarrow> p = outp \<or> p = temp_path_of outp \<Longrightarrow> only_ops (auto_op outp) a b"
    by (auto intro!: only_ops_mono [OF unlink_ops] simp: auto_op_def)
  have rn: "\<And>a b. rename a (temp_path_of outp) outp = Inr b \<Longrightarrow> only_ops (auto_op outp) a b"
    by (auto intro!: only_ops_mono [OF rename_ops] simp: auto_op_def)
  show ?thesis
    using assms o1
    by (auto simp: candidate_body_def sv Let_def split: option.splits sum.splits if_splits
        intro: only_ops_trans [OF o1] only_ops_trans [OF only_ops_trans [OF o1]] u rn)
qed

lemma try_candidate_ops:
  assumes "try_candidate env img outp (temp_path_of outp) best s c = (r, best', s')"
  shows "only_ops (auto_op outp) s s'"
proof -
  obtain r1 b1 s1 where cb: "candidate_body env img outp (temp_path_of outp) best s c = (r1, b1, s1)"
    by (cases "candidate_body env img outp (temp_path_of outp) best s c") auto
  note o1 = candidate_body_ops [OF cb]
  have u: "\<And>b. unlink s1 (temp_path_of outp) = Inr b \<Longrightarrow> only_ops (auto_op outp) s1 b"
    by (auto intro!: only_ops_mono [OF unlink_ops] simp: auto_op_def)
  show ?thesis
    using assms o1
    by (auto simp: try_candidate_def cb split: option.splits sum.splits if_splits
        intro: only_ops_trans [OF o1] u)
qed

lemma webp_loop_ops:
  "webp_loop env img outp (temp_path_of outp) best s cs = (r, best', s') \<Longrightarrow> only_ops (auto_op outp) s s'"
proof (induction cs arbitrary: best s)
  case Nil
  then show ?case by simp
next
  case (Cons c cs)
  obtain r1 b1 s1 where t: "try_candidate env img outp (temp_path_of outp) best s c = (r1, b1, s1)"
    by (cases "try_candidate env img outp (temp_path_of outp) best s c") auto
  note o1 = try_candidate_ops [OF t]
  show ?case
  proof (cases r1)
    case None
    with Cons.prems t have "webp_loop env img outp (temp_path_of outp) b1 s1 cs = (r, best', s')" by simp
    from Cons.IH [OF this] o1 show ?thesis by (rule only_ops_trans [rotated])
  next
    case (Some e)
    with Cons.prems t o1 show ?thesis by simp
  qed
qed

lemma try_both_webp_ops:
  "try_both_webp cv env s img outp = (r, s') \<Longrightarrow> only_ops (auto_op outp) s s'"
  by (auto simp: try_both_webp_def split: prod.splits option.splits dest: webp_loop_ops)

lemma try_convert_auto_ops:
  assumes "output_format cv = ''webp''" "encode_method cv = ''auto''"
    and "try_convert cv env s inp outp r0 = (r, s')"
  shows "only_ops (auto_op outp) s s'"
  using assms(3)
  by (auto simp: try_convert_def encode_output_def assms(1,2) Let_def
      split: sum.splits prod.splits dest: try_both_webp_ops)

lemma convert_single_auto_ops:
  assumes "output_format cv = ''webp''" "encode_method cv = ''auto''"
    and "convert_single cv env s inp outp = (r, s')"
  shows "only_ops (convert_op outp) s s'"
proof -
  obtain r1 s1 where m: "mkdir_parents s (butlast outp) = (r1, s1)"
    by (cases "mkdir_parents s (butlast outp)")
  have o1: "only_ops (convert_op outp) s s1"
    using mkdir_parents_above [OF m prefix_order.order_refl]
    by (auto simp: convert_op_def elim: only_ops_mono)
  show ?thesis
  proof (cases r1)
    case (Some e)
    with assms(3) m o1 show ?thesis by (simp add: convert_single_def)
  next
    case None
    obtain r2 s2 where t: "try_convert cv env s1 inp outp (init_result inp outp) = (r2, s2)"
      by (cases "try_convert cv env s1 inp outp (init_result inp outp)")
    have "only_ops (convert_op outp) s1 s2"
      using try_convert_auto_ops [OF assms(1,2) t] by (rule only_ops_mono) (simp add: convert_op_def)
    with o1 have "only_ops (convert_op outp) s s2" by (rule only_ops_trans)
    with assms(3) m None t show ?thesis by (simp add: convert_single_def)
  qed
qed

section \<open>Outcomes of a conversion and of a batch\<close>

text \<open>Whatever is raised inside the try block becomes a failed outcome.\<close>

lemma try_convert_outcome:
  assumes "try_convert cv env s inp outp r0 = (r, s')" "\<not> success r0" "error r0 = None"
  shows "(success r \<and> error r = None) \<or> (\<not> success r \<and> (\<exists>e. error r = Some (exn_str e)))"
  using assms
  by (auto simp: try_convert_def failed_def Let_def split: sum.splits prod.splits)

lemma try_convert_paths:
  assumes "try_convert cv env s inp outp r0 = (r, s')"
  shows "input_path r = input_path r0 \<and> output_path r = output_path r0"
  using assms
  by (auto simp: try_convert_def failed_def Let_def split: sum.splits prod.splits)

lemma try_convert_success_file:
  assumes "try_convert cv env s inp outp r0 = (r, s')" "\<not> success r0" "success r"
  shows "path_exists s' outp"
  using assms
  by (auto simp: try_convert_def failed_def Let_def getsize_def stat_def path_exists_def
      split: sum.splits prod.splits option.splits)

lemma convert_single_cases:
  "(\<exists>e s1. mkdir_parents s (butlast outp) = (Some e, s1) \<and> convert_single cv env s inp outp = (Inl e, s1))
   \<or> (\<exists>s1 r s'. mkdir_parents s (butlast outp) = (None, s1)
         \<and> convert_single cv env s inp outp = (Inr r, s')
         \<and> input_path r = inp \<and> output_path r = outp
         \<and> ((success r \<and> error r = None \<and> path_exists s' outp)
            \<or> (\<not> success r \<and> (\<exists>e. error r = Some (exn_str e)))))"
proof -
  obtain r1 s1 where m: "mkdir_parents s (butlast outp) = (r1, s1)"
    by (cases "mkdir_parents s (butlast outp)")
  show ?thesis
  proof (cases r1)
    case (Some e)
    with m show ?thesis by (simp add: convert_single_def)
  next
    case None
    obtain r2 s2 where t: "try_convert cv env s1 inp outp (init_result inp outp) = (r2, s2)"
      by (cases "try_convert cv env s1 inp outp (init_result inp outp)")
    have i: "\<not> success (init_result inp outp)" "error (init_result inp outp) = None"
      by (simp_all add: init_result_def)
    from try_convert_outcome [OF t i] try_convert_paths [OF t] try_convert_success_file [OF t i(1)]
    show ?thesis using m None t by (auto simp: convert_single_def init_result_def)
  qed
qed

lemma run_tasks_length: "run_tasks cv env s pairs = (fs, s') \<Longrightarrow> length fs = length pairs"
  by (induction pairs arbitrary: s fs s') (auto split: prod.splits)

lemma appended_length: "first_raised fs = None \<Longrightarrow> length (appended fs) = length fs"
  by (induction fs rule: first_raised.induct) auto

lemma convert_batch_length:
  assumes "convert_batch cv env s pairs = (Inr rs, s')"
  shows "length rs = length pairs"
  using assms run_tasks_length appended_length
  by (fastforce simp: convert_batch_def split: if_splits prod.splits option.splits)

text \<open>A batch returns one outcome per pair unless the worker count is not positive or
  the \<open>mkdir\<close> of some task raises.\<close>

lemma convert_single_Inl:
  assumes "convert_single cv env s inp outp = (Inl e, s')"
  shows "mkdir_parents s (butlast outp) = (Some e, s')"
  using assms by (auto simp: convert_single_def split: prod.splits option.splits)

lemma run_tasks_raise_origin:
  assumes "run_tasks cv env s pairs = (fs, s')" "first_raised fs = Some e"
  shows "\<exists>s0 s1 pair. pair \<in> set pairs \<and> mkdir_parents s0 (butlast (snd pair)) = (Some e, s1)"
  using assms
proof (induction pairs arbitrary: s fs s')
  case Nil
  then show ?case by simp
next
  case (Cons pair pairs)
  obtain r s1 where c: "convert_single cv env s (fst pair) (snd pair) = (r, s1)"
    by (cases "convert_single cv env s (fst pair) (snd pair)")
  obtain rs s2 where t: "run_tasks cv env s1 pairs = (rs, s2)"
    by (cases "run_tasks cv env s1 pairs")
  from Cons.prems(1) c t have fs: "fs = r # rs" by simp
  show ?case
  proof (cases r)
    case (Inl e')
    with Cons.prems(2) fs have "e' = e" by simp
    with c Inl convert_single_Inl have "mkdir_parents s (butlast (snd pair)) = (Some e, s1)" by simp
    then show ?thesis by (intro exI [of _ s] exI [of _ s1] exI [of _ pair]) simp
  next
    case (Inr x)
    with Cons.prems(2) fs have "first_raised rs = Some e" by simp
    from Cons.IH [OF t this] obtain s0 s3 p where
      "p \<in> set pairs" "mkdir_parents s0 (butlast (snd p)) = (Some e, s3)" by blast
    then show ?thesis by (intro exI [of _ s0] exI [of _ s3] exI [of _ p]) simp
  qed
qed

lemma convert_batch_cases:
  assumes "convert_batch cv env s pairs = (r, s')"
  shows "(\<exists>rs. r = Inr rs \<and> length rs = length pairs)
       \<or> (\<exists>n. max_workers cv = Some n \<and> n \<le> 0)
       \<or> (\<exists>e s0 s1 pair. r = Inl e \<and> pair \<in> set pairs
             \<and> mkdir_parents s0 (butlast (snd pair)) = (Some e, s1))"
proof (cases "case max_workers cv of None \<Rightarrow> False | Some n \<Rightarrow> n \<le> 0")
  case True
  then show ?thesis by (auto split: option.splits)
next
  case False
  obtain fs s1 where t: "run_tasks cv env s pairs = (fs, s1)" by (cases "run_tasks cv env s pairs")
  show ?thesis
  proof (cases "first_raised fs")
    case None
    with assms False t have "r = Inr (appended fs)" by (auto simp: convert_batch_def)
    then show ?thesis using run_tasks_length [OF t] appended_length [OF None] by simp
  next
    case (Some e)
    with assms False t have "r = Inl e" by (auto simp: convert_batch_def)
    with run_tasks_raise_origin [OF t Some] show ?thesis by blast
  qed
qed

section \<open>The session sweep\<close>

lemma map_of_filter_key:
  "map_of (filter (\<lambda>(k, n). Q k) xs) q = (if Q q then map_of xs q else None)"
  by (induction xs) auto

lemma remains_iff:
  "remains stuck s k = (\<exists>j. lookup s j \<noteq> None \<and> prefix k j \<and> stuck j)"
proof -
  have "(j \<in> fst ` set (nodes s)) = (lookup s j \<noteq> None)" for j
    by (simp add: lookup_def map_of_eq_None_iff)
  moreover have "remains stuck s k = (\<exists>j \<in> fst ` set (nodes s). prefix k j \<and> stuck j)"
    by (simp add: remains_def list_ex_iff)
  ultimately show ?thesis by blast
qed

lemma lookup_rmtree:
  "lookup (rmtree stuck s p) q
     = (if is_dir s p \<and> prefix p q \<and> \<not> remains stuck s q then None else lookup s q)"
proof -
  have "map_of (filter (\<lambda>(k, n). \<not> prefix p k \<or> remains stuck s k) (nodes s)) q
      = (if \<not> prefix p q \<or> remains stuck s q then map_of (nodes s) q else None)"
    by (rule map_of_filter_key)
  then show ?thesis by (auto simp: rmtree_def lookup_def log_op_def snapshot_def)
qed

lemma lookup_sweep_folder:
  "lookup (sweep_folder stuck now s f) q
     = (if expired now s f \<and> prefix f q \<and> \<not> remains stuck s q then None else lookup s q)"
  by (auto simp: sweep_folder_def expired_def is_dir_def stat_def lookup_rmtree Let_def
      split: option.splits node.splits)

text \<open>What remains does not change while the sweep goes on: an entry that is stuck is
  never removed.\<close>

lemma remains_sweep_folder:
  "remains stuck (sweep_folder stuck now s f) q = remains stuck s q"
proof -
  have "(lookup (sweep_folder stuck now s f) j \<noteq> None) = (lookup s j \<noteq> None)" if "stuck j" for j
  proof (cases "lookup s j = None")
    case True
    then show ?thesis by (simp add: lookup_sweep_folder)
  next
    case False
    with that have "remains stuck s j" by (auto simp: remains_iff)
    then show ?thesis by (simp add: lookup_sweep_folder)
  qed
  then show ?thesis unfolding remains_iff by blast
qed

lemma prefix_same_length: "prefix f g \<Longrightarrow> length f = length g \<Longrightarrow> f = g"
  by (auto simp: prefix_def)

lemma lookup_sweep_fold:
  assumes "\<forall>f \<in> set folders. length f = n"
  shows "lookup (fold (\<lambda>folder s'. sweep_folder stuck now s' folder) folders s) q
       = (if (\<exists>f \<in> set folders. expired now s f \<and> prefix f q) \<and> \<not> remains stuck s q
          then None else lookup s q)
     \<and> remains stuck (fold (\<lambda>folder s'. sweep_folder stuck now s' folder) folders s) q
       = remains stuck s q"
  using assms
proof (induction folders arbitrary: s)
  case Nil
  then show ?case by simp
next
  case (Cons f fs)
  define s1 where "s1 = sweep_folder stuck now s f"
  have r1: "remains stuck s1 k = remains stuck s k" for k
    by (simp add: s1_def remains_sweep_folder)
  have e1: "expired now s1 g
      = (expired now s g \<and> \<not> (expired now s f \<and> g = f \<and> \<not> remains stuck s f))"
    if "g \<in> set fs" for g
  proof -
    have "length g = length f" using that Cons.prems by simp
    then have "prefix f g \<longleftrightarrow> g = f" using prefix_same_length [of f g] by auto
    then show ?thesis by (auto simp: expired_def s1_def lookup_sweep_folder)
  qed
  have l1: "lookup s1 q
     = (if expired now s f \<and> prefix f q \<and> \<not> remains stuck s q then None else lookup s q)"
    by (simp add: s1_def lookup_sweep_folder)
  have ih: "lookup (fold (\<lambda>folder s'. sweep_folder stuck now s' folder) fs s1) q
       = (if (\<exists>g \<in> set fs. expired now s1 g \<and> prefix g q) \<and> \<not> remains stuck s1 q
          then None else lookup s1 q)
     \<and> remains stuck (fold (\<lambda>folder s'. sweep_folder stuck now s' folder) fs s1) q
       = remains stuck s1 q"
    using Cons.prems by (intro Cons.IH) simp
  have "lookup (fold (\<lambda>folder s'. sweep_folder stuck now s' folder) fs s1) q
       = (if (\<exists>g \<in> set (f # fs). expired now s g \<and> prefix g q) \<and> \<not> remains stuck s q
          then None else lookup s q)"
  proof (cases "remains stuck s q")
    case True
    then show ?thesis using ih by (simp add: r1 l1)
  next
    case False
    show ?thesis
    proof (cases "expired now s f \<and> prefix f q")
      case True
      then show ?thesis using ih False by (simp add: r1 l1)
    next
      case nf: False
      have "(\<exists>g \<in> set fs. expired now s1 g \<and> prefix g q)
          = (\<exists>g \<in> set fs. expired now s g \<and> prefix g q)"
        using e1 nf by auto
      then show ?thesis using ih False nf by (auto simp: r1 l1)
    qed
  qed
  then show ?case using ih by (simp add: s1_def [symmetric] r1)
qed

lemma children_length: "f \<in> set (children s p) \<Longrightarrow> length f = Suc (length p)"
  by (auto simp: children_def)

lemma child_listed: "lookup s (p @ [x]) = Some n \<Longrightarrow> p @ [x] \<in> set (children s p)"
  by (auto simp: children_def lookup_def dest: map_of_SomeD intro!: image_eqI [where x = "(p @ [x], n)"])

text \<open>One round of the outer loop, for a root that is a directory or does not exist.\<close>

lemma sweep_base_round:
  assumes "is_dir s base \<or> \<not> path_exists s base"
  shows "\<exists>s'. sweep_base stuck now s base = (None, s')
      \<and> (\<forall>q. lookup s' q
            = (if is_dir s base \<and> (\<exists>f \<in> set (children s base). expired now s f \<and> prefix f q)
                  \<and> \<not> remains stuck s q
               then None else lookup s q))
      \<and> (\<forall>q. remains stuck s' q = remains stuck s q)"
proof (cases "is_dir s base")
  case True
  have it: "iterdir s base = Inr (children s base)"
    using True by (auto simp: iterdir_def stat_def is_dir_def children_def split: option.splits node.splits)
  have ex: "path_exists s base" using True by (auto simp: path_exists_def is_dir_def split: option.splits)
  have "\<forall>f \<in> set (children s base). length f = Suc (length base)" by (simp add: children_length)
  from lookup_sweep_fold [OF this] True show ?thesis by (simp add: sweep_base_def it ex)
next
  case False
  with assms show ?thesis by (simp add: sweep_base_def)
qed

lemma roots_differ: "UPLOAD_DIR b \<noteq> CONVERSION_DIR b"
  by (simp add: UPLOAD_DIR_def CONVERSION_DIR_def)

lemma roots_length: "length (UPLOAD_DIR b) = length (CONVERSION_DIR b)"
  by (simp add: UPLOAD_DIR_def CONVERSION_DIR_def)

lemma sweep_subtree:
  assumes rootU: "is_dir s (UPLOAD_DIR b) \<or> \<not> path_exists s (UPLOAD_DIR b)"
    and rootC: "is_dir s (CONVERSION_DIR b) \<or> \<not> path_exists s (CONVERSION_DIR b)"
    and base: "base = UPLOAD_DIR b \<or> base = CONVERSION_DIR b"
    and bd: "is_dir s base"
    and d: "lookup s (base @ [name]) = Some (Dir st_mtime)"
  shows "\<exists>s'. cleanup_old_sessions stuck b s = (None, s')
        \<and> (if clock s - st_mtime > SESSION_MAX_AGE
           then (\<forall>q. prefix (base @ [name]) q \<longrightarrow>
                   lookup s' q = (if remains stuck s q then lookup s q else None))
           else (\<forall>q. prefix (base @ [name]) q \<longrightarrow> lookup s' q = lookup s q))"
proof -
  define now where "now = clock s"
  define U where "U = UPLOAD_DIR b"
  define C where "C = CONVERSION_DIR b"
  define dd where "dd = base @ [name]"
  have len: "length U = length C" "length dd = Suc (length U)"
    using base roots_length [of b] by (auto simp: U_def C_def dd_def)
  from sweep_base_round [OF rootU, of stuck now] obtain s1 where
    s1: "sweep_base stuck now s U = (None, s1)"
    and l1: "\<And>q. lookup s1 q
            = (if is_dir s U \<and> (\<exists>f \<in> set (children s U). expired now s f \<and> prefix f q)
                  \<and> \<not> remains stuck s q
               then None else lookup s q)"
    and r1: "\<And>q. remains stuck s1 q = remains stuck s q"
    unfolding U_def by blast
  have keep_short: "lookup s1 q = lookup s q" if "length q \<le> length U" for q
  proof -
    have "\<not> prefix f q" if "f \<in> set (children s U)" for f
      using children_length [OF that] \<open>length q \<le> length U\<close> by (auto dest: prefix_length_le)
    then show ?thesis by (simp add: l1)
  qed
  have lc: "lookup s1 C = lookup s C" using len by (intro keep_short) simp
  then have c1: "is_dir s1 C \<or> \<not> path_exists s1 C"
    using rootC by (simp add: is_dir_def path_exists_def C_def)
  from sweep_base_round [OF c1, of stuck now] obtain s2 where
    s2: "sweep_base stuck now s1 C = (None, s2)"
    and l2: "\<And>q. lookup s2 q
            = (if is_dir s1 C \<and> (\<exists>f \<in> set (children s1 C). expired now s1 f \<and> prefix f q)
                  \<and> \<not> remains stuck s1 q
               then None else lookup s1 q)"
    by blast
  have run: "cleanup_old_sessions stuck b s = (None, s2)"
    by (simp add: cleanup_old_sessions_def Let_def now_def [symmetric]
        U_def [symmetric] C_def [symmetric] s1 s2)
  have exd: "expired now s dd = (now - st_mtime > SESSION_MAX_AGE)"
    using d by (simp add: expired_def dd_def)
  have same: "f = dd" if "length f = Suc (length U)" "prefix f q" "prefix dd q" for f q
  proof -
    from that(2,3) have "prefix f dd \<or> prefix dd f" by (rule prefix_same_cases)
    then show ?thesis using that(1) len prefix_same_length [of f dd] prefix_same_length [of dd f] by auto
  qed
  have lenC: "\<And>f. f \<in> set (children s1 C) \<Longrightarrow> length f = Suc (length U)"
    using children_length len by simp
  have lenU: "\<And>f. f \<in> set (children s U) \<Longrightarrow> length f = Suc (length U)"
    using children_length by simp
  show ?thesis
  proof (cases "now - st_mtime > SESSION_MAX_AGE")
    case False
    have "lookup s2 q = lookup s q" if pq: "prefix dd q" for q
    proof -
      have a: "\<not> (\<exists>f \<in> set (children s U). expired now s f \<and> prefix f q)"
        using same [OF lenU _ pq] exd False by auto
      then have q1: "lookup s1 q = lookup s q" by (auto simp: l1)
      have "\<not> (\<exists>f \<in> set (children s U). expired now s f \<and> prefix f dd)"
        using same [OF lenU _ prefix_order.order_refl] exd False by auto
      then have d1: "lookup s1 dd = lookup s dd" by (auto simp: l1)
      then have "\<not> expired now s1 dd" using exd False by (simp add: expired_def)
      then have "\<not> (\<exists>f \<in> set (children s1 C). expired now s1 f \<and> prefix f q)"
        using same [OF lenC _ pq] by auto
      then have "lookup s2 q = lookup s1 q" by (auto simp: l2)
      then show ?thesis using q1 by simp
    qed
    then show ?thesis using run False by (simp add: now_def dd_def)
  next
    case True
    have "lookup s2 q = (if remains stuck s q then lookup s q else None)" if pq: "prefix dd q" for q
    proof (cases "remains stuck s q")
      case rem: True
      then show ?thesis by (simp add: l2 l1 r1)
    next
      case rem: False
      have "lookup s2 q = None"
      proof (cases "base = U")
        case True
        then have "dd \<in> set (children s U)" using d by (auto simp: dd_def intro: child_listed)
        moreover have "is_dir s U" using bd True by simp
        ultimately have "lookup s1 q = None"
          using exd \<open>now - st_mtime > SESSION_MAX_AGE\<close> pq rem by (auto simp: l1)
        then show ?thesis by (simp add: l2)
      next
        case False
        then have rc: "base = C" using base by (simp add: U_def C_def)
        have "\<not> (\<exists>f \<in> set (children s U). prefix f dd)"
        proof
          assume "\<exists>f \<in> set (children s U). prefix f dd"
          then obtain f where f: "f \<in> set (children s U)" "prefix f dd" by blast
          then have "f = dd" using lenU [OF f(1)] len(2) by (intro prefix_same_length) simp_all
          with f(1) have "butlast dd = U" by (auto simp: children_def)
          then show False using rc roots_differ [of b] by (simp add: dd_def U_def C_def)
        qed
        then have d1: "lookup s1 dd = lookup s dd" by (auto simp: l1)
        then have "dd \<in> set (children s1 C)" using d rc by (auto simp: dd_def intro: child_listed)
        moreover have "expired now s1 dd" using d1 d True by (simp add: expired_def dd_def)
        moreover have "is_dir s1 C" using bd rc lc by (simp add: is_dir_def)
        ultimately show ?thesis using pq rem by (auto simp: l2 r1)
      qed
      with rem show ?thesis by simp
    qed
    then show ?thesis using run True by (simp add: now_def dd_def)
  qed
qed

section \<open>Session directories and stored names\<close>

lemma split_sep_nonempty: "split_sep str \<noteq> []"
  by (induction str) (auto split: list.splits)

lemma split_sep_no_slash: "w \<in> set (split_sep str) \<Longrightarrow> CHR ''/'' \<notin> set w"
  by (induction str arbitrary: w) (auto split: list.splits if_splits)

lemma parse_parts_no_slash: "w \<in> set (parse_parts str) \<Longrightarrow> CHR ''/'' \<notin> set w \<and> w \<noteq> [] \<and> w \<noteq> ''.''"
  using split_sep_no_slash by (auto simp: parse_parts_def)

lemma safe_name_no_slash: "CHR ''/'' \<notin> set (safe_name filename)"
proof (cases "parse_parts filename = []")
  case True
  then show ?thesis by (simp add: safe_name_def path_name_def)
next
  case False
  then have "last (parse_parts filename) \<in> set (parse_parts filename)" by simp
  from parse_parts_no_slash [OF this] show ?thesis using False by (simp add: safe_name_def path_name_def)
qed

lemma split_sep_plain: "CHR ''/'' \<notin> set w \<Longrightarrow> split_sep w = [w]"
  by (induction w) auto

lemma safe_name_single:
  "path_join d (safe_name filename) = (if safe_name filename = [] then d else d @ [safe_name filename])"
proof (cases "parse_parts filename = []")
  case True
  then show ?thesis by (simp add: safe_name_def path_name_def path_join_def parse_parts_def)
next
  case False
  define w where "w = last (parse_parts filename)"
  have "w \<in> set (parse_parts filename)" using False by (simp add: w_def)
  then have w: "CHR ''/'' \<notin> set w" "w \<noteq> []" "w \<noteq> ''.''" using parse_parts_no_slash by auto
  have sn: "safe_name filename = w" using False by (simp add: safe_name_def path_name_def w_def)
  have "hd w \<noteq> CHR ''/''" using w by (cases w) auto
  then show ?thesis using w by (simp add: sn path_join_def parse_parts_def split_sep_plain)
qed

lemma split_sep_append:
  "split_sep (xs @ CHR ''/'' # ys) = split_sep xs @ split_sep ys"
proof (induction xs)
  case Nil
  show ?case by simp
next
  case (Cons c xs)
  obtain w ws where w: "split_sep xs = w # ws"
    using split_sep_nonempty [of xs] by (cases "split_sep xs") auto
  show ?case using Cons w by simp
qed

lemma safe_name_last:
  assumes "CHR ''/'' \<notin> set w" "w \<noteq> []" "w \<noteq> ''.''"
  shows "safe_name (pre @ ''/'' @ w) = w \<and> safe_name w = w"
proof -
  have "parse_parts w = [w]" using assms by (simp add: parse_parts_def split_sep_plain)
  moreover have "parse_parts (pre @ CHR ''/'' # w) = parse_parts pre @ parse_parts w"
    by (simp add: parse_parts_def split_sep_append)
  ultimately show ?thesis by (simp add: safe_name_def path_name_def)
qed

lemma grows_keeps_dir:
  assumes "grows p s s'" "is_dir s q"
  shows "is_dir s' q"
proof -
  from assms(1) have "lookup s' q = lookup s q \<or> lookup s q = None" by (auto simp: grows_def)
  with assms(2) show ?thesis by (auto simp: is_dir_def)
qed

text \<open>The walk of the operating system.\<close>

lemma os_walk_append:
  "os_walk s cur (xs @ ys) = bind_exn (os_walk s cur xs) (\<lambda>d. os_walk s d ys)"
proof (induction xs arbitrary: cur)
  case Nil
  show ?case by (cases ys) (auto simp: bind_exn_def split: option.splits node.splits)
next
  case (Cons c xs)
  then show ?case by (auto simp: bind_exn_def split: option.splits node.splits)
qed

lemma os_walk_Inr:
  "os_walk s cur cs = Inr d \<Longrightarrow> d = os_resolve_from cur cs \<and> is_dir s d"
proof (induction cs arbitrary: cur)
  case Nil
  then show ?case by (auto simp: is_dir_def split: option.splits node.splits)
next
  case (Cons c cs)
  from Cons.prems have "os_walk s (if c = ''..'' then butlast cur else cur @ [c]) cs = Inr d"
    by (auto split: option.splits node.splits)
  from Cons.IH [OF this] show ?case by auto
qed

lemma os_walk_keeps:
  assumes "\<And>q. is_dir s q \<Longrightarrow> is_dir s' q"
  shows "os_walk s cur cs = Inr d \<Longrightarrow> os_walk s' cur cs = Inr d"
proof (induction cs arbitrary: cur)
  case Nil
  then have "is_dir s cur" by (auto simp: is_dir_def split: option.splits node.splits)
  from assms [OF this] Nil show ?case by (auto simp: is_dir_def split: option.splits node.splits)
next
  case (Cons c cs)
  then have "is_dir s cur" by (auto simp: is_dir_def split: option.splits node.splits)
  from assms [OF this] Cons show ?case by (auto simp: is_dir_def split: option.splits node.splits)
qed

lemma is_dir_lex_resolve: "is_dir_lex s p \<Longrightarrow> is_dir s (os_resolve p)"
  using os_walk_Inr [of s "[]" p] by (auto simp: is_dir_lex_def os_resolve_def split: sum.splits)

lemma os_mkdir_lex_Inr:
  assumes "os_mkdir_lex s p = Inr s'"
  shows "is_dir_lex s' p \<and> (\<forall>q. is_dir s q \<longrightarrow> is_dir s' q)"
proof -
  from assms os_mkdir_root have p: "p \<noteq> []" by (auto simp: os_mkdir_lex_def)
  with assms obtain d where d: "os_walk s [] (butlast p) = Inr d"
    and c: "last p \<noteq> ''..''" and m: "os_mkdir s (d @ [last p]) = Inr s'"
    by (auto simp: os_mkdir_lex_def split: sum.splits if_splits)
  from os_mkdir_grows [OF m] have g: "grows (d @ [last p]) s s'" and n: "is_dir s' (d @ [last p])"
    by simp_all
  have keep: "is_dir s' q" if "is_dir s q" for q using grows_keeps_dir [OF g that] .
  from os_walk_keeps [OF keep d] have d': "os_walk s' [] (butlast p) = Inr d" by simp
  from os_walk_Inr [OF d'] have dd: "is_dir s' d" by blast
  have "os_walk s' [] (butlast p @ [last p]) = Inr (d @ [last p])"
    using d' dd n c by (auto simp: os_walk_append bind_exn_def is_dir_def split: option.splits node.splits)
  with p have "is_dir_lex s' p" by (simp add: is_dir_lex_def)
  with keep show ?thesis by blast
qed

lemma mkdir_exist_ok_lex_None:
  "mkdir_exist_ok_lex s p = (None, s') \<Longrightarrow> is_dir_lex s' p"
  using os_mkdir_lex_Inr [of s p]
  by (auto simp: mkdir_exist_ok_lex_def split: sum.splits if_splits)

declare mkdir_parents_lex.simps [simp del]

lemma mkdir_parents_lex_None:
  "mkdir_parents_lex s p = (None, s') \<Longrightarrow> is_dir_lex s' p"
proof (induction s p arbitrary: s' rule: mkdir_parents_lex.induct)
  case (1 s p)
  show ?case
  proof (cases "os_mkdir_lex s p")
    case (Inr s1)
    with "1.prems" os_mkdir_lex_Inr [OF Inr] show ?thesis
      by (simp add: mkdir_parents_lex.simps [of s p])
  next
    case (Inl e)
    show ?thesis
    proof (cases "e = FileNotFoundError")
      case False
      with "1.prems" Inl show ?thesis
        by (auto simp: mkdir_parents_lex.simps [of s p] split: if_splits)
    next
      case True
      with "1.prems" Inl obtain s1 where "mkdir_exist_ok_lex s1 p = (None, s')"
        by (auto simp: mkdir_parents_lex.simps [of s p] split: if_splits prod.splits option.splits)
      then show ?thesis by (rule mkdir_exist_ok_lex_None)
    qed
  qed
qed

lemma session_dir_result:
  assumes "session_dir root_dir s sid = (Inr p, s')"
  shows "p = path_join root_dir sid \<and> is_dir_lex s' p \<and> is_dir s' (os_resolve p)"
proof -
  from assms have "p = path_join root_dir sid" and "mkdir_parents_lex s p = (None, s')"
    by (auto simp: session_dir_def Let_def split: prod.splits option.splits)
  with mkdir_parents_lex_None [of s p s'] is_dir_lex_resolve [of s' p] show ?thesis by simp
qed

lemma session_dir_raises:
  assumes "session_dir root_dir s sid = (Inl e, s')"
  shows "mkdir_parents_lex s (path_join root_dir sid) = (Some e, s')"
  using assms by (auto simp: session_dir_def Let_def split: prod.splits option.splits)

text \<open>An identifier of one plain component below a root that is a directory: the
  operation returns, unless a regular file has that name.\<close>

lemma session_dir_returns:
  assumes "is_dir_lex s root_dir"
    and "CHR ''/'' \<notin> set sid" "sid \<noteq> []" "sid \<noteq> ''.''" "sid \<noteq> ''..''"
    and "\<not> is_file s (os_resolve root_dir @ [sid])"
  shows "\<exists>s'. session_dir root_dir s sid = (Inr (root_dir @ [sid]), s')"
proof -
  define p where "p = root_dir @ [sid]"
  have hd: "hd sid \<noteq> CHR ''/''" using assms(2,3) by (cases sid) auto
  have pj: "path_join root_dir sid = p"
    using assms(2-4) hd by (simp add: path_join_def parse_parts_def split_sep_plain p_def)
  from assms(1) obtain d where d: "os_walk s [] root_dir = Inr d"
    by (auto simp: is_dir_lex_def split: sum.splits)
  from os_walk_Inr [OF d] have dr: "d = os_resolve root_dir" and dd: "is_dir s d"
    by (auto simp: os_resolve_def)
  have lex: "os_mkdir_lex s p = os_mkdir s (d @ [sid])"
    using d assms(5) by (simp add: os_mkdir_lex_def p_def)
  have "\<exists>s'. mkdir_parents_lex s p = (None, s')"
  proof (cases "os_mkdir s (d @ [sid])")
    case (Inr s1)
    then show ?thesis by (simp add: mkdir_parents_lex.simps [of s p] lex)
  next
    case (Inl e)
    with dd have ex: "path_exists s (d @ [sid])" and e: "e = FileExistsError"
      by (auto simp: os_mkdir_def parent_error_def is_dir_def split: option.splits node.splits if_splits)
    with assms(6) dr have "is_dir s (d @ [sid])"
      by (auto simp: path_exists_def is_file_def is_dir_def split: option.splits node.splits)
    then have "os_walk s [] (root_dir @ [sid]) = Inr (d @ [sid])"
      using d dd assms(5)
      by (auto simp: os_walk_append bind_exn_def is_dir_def split: option.splits node.splits)
    then have "is_dir_lex s p" by (simp add: is_dir_lex_def p_def)
    with Inl e show ?thesis by (simp add: mkdir_parents_lex.simps [of s p] lex)
  qed
  then show ?thesis by (auto simp: session_dir_def Let_def pj p_def)
qed

text \<open>After \<open>ensure_dirs\<close>, which the application runs at start, both roots are
  directories.\<close>

lemma ensure_dirs_roots:
  assumes "ensure_dirs b s = (None, s')"
  shows "is_dir s' (UPLOAD_DIR b) \<and> is_dir s' (CONVERSION_DIR b)"
proof -
  from assms obtain s1 where 1: "mkdir_exist_ok s (UPLOAD_DIR b) = (None, s1)"
    and 2: "mkdir_exist_ok s1 (CONVERSION_DIR b) = (None, s')"
    by (auto simp: ensure_dirs_def split: prod.splits option.splits)
  from mkdir_exist_ok_grows [OF 1] have "is_dir s1 (UPLOAD_DIR b)" by simp
  with mkdir_exist_ok_grows [OF 2] show ?thesis by (auto intro: grows_keeps_dir)
qed

section \<open>The auto policy when every encoder fails\<close>

lemma image_save_others:
  "image_save env s img p fmt kw = (r, s') \<Longrightarrow> q \<noteq> p \<Longrightarrow> lookup s' q = lookup s q"
  by (auto simp: image_save_def open_write_def split: save_result.splits sum.splits option.splits if_splits)

lemma image_save_not_encoded:
  "image_save env s img p fmt kw = (r, s') \<Longrightarrow> \<forall>b. encode env img fmt kw p \<noteq> Encoded b \<Longrightarrow> r \<noteq> None"
  by (auto simp: image_save_def split: save_result.splits sum.splits option.splits)

lemma unlink_others: "unlink s p = Inr s' \<Longrightarrow> q \<noteq> p \<Longrightarrow> lookup s' q = lookup s q"
  by (auto simp: unlink_def split: sum.splits node.splits)

lemma try_candidate_not_encoded:
  assumes "try_candidate env img outp (temp_path_of outp) best s c = (r, best', s')"
    and "\<not> candidate_encoded env img outp c"
  shows "best' = best \<and> lookup s' outp = lookup s outp"
proof -
  have ne: "\<forall>b. encode env img (Some ''WEBP'') (snd c) (temp_path_of outp) \<noteq> Encoded b"
    using assms(2) by (auto simp: candidate_encoded_def candidate_result_def)
  obtain r1 s1 where sv: "image_save env s img (temp_path_of outp) (Some ''WEBP'') (snd c) = (r1, s1)"
    by (cases "image_save env s img (temp_path_of outp) (Some ''WEBP'') (snd c)")
  from image_save_not_encoded [OF sv ne] obtain e where r1: "r1 = Some e" by auto
  have l1: "lookup s1 outp = lookup s outp"
    using image_save_others [OF sv, of outp] temp_path_neq [of outp] by simp
  have cb: "candidate_body env img outp (temp_path_of outp) best s c = (Some e, best, s1)"
    by (simp add: candidate_body_def sv r1)
  show ?thesis
    using assms(1) l1 unlink_others [of s1 "temp_path_of outp" _ outp] temp_path_neq [of outp]
    by (auto simp: try_candidate_def cb split: if_splits sum.splits)
qed

lemma webp_loop_not_encoded:
  assumes "webp_loop env img outp (temp_path_of outp) best s cs = (r, best', s')"
    and "\<forall>c \<in> set cs. \<not> candidate_encoded env img outp c"
  shows "best' = best \<and> lookup s' outp = lookup s outp"
  using assms
proof (induction cs arbitrary: best s)
  case Nil
  then show ?case by simp
next
  case (Cons c cs)
  obtain r1 b1 s1 where t: "try_candidate env img outp (temp_path_of outp) best s c = (r1, b1, s1)"
    by (cases "try_candidate env img outp (temp_path_of outp) best s c") auto
  from try_candidate_not_encoded [OF t] Cons.prems(2)
  have k: "b1 = best" "lookup s1 outp = lookup s outp" by auto
  show ?case
  proof (cases r1)
    case None
    with Cons.prems(1) t have "webp_loop env img outp (temp_path_of outp) b1 s1 cs = (r, best', s')" by simp
    from Cons.IH [OF this] Cons.prems(2) k show ?thesis by simp
  next
    case (Some e)
    with Cons.prems(1) t k show ?thesis by simp
  qed
qed

lemma mkdir_parents_keeps_absent:
  assumes "mkdir_parents s (butlast outp) = (None, s1)" "lookup s outp = None"
  shows "lookup s1 outp = None"
proof (rule ccontr)
  assume n: "lookup s1 outp \<noteq> None"
  from mkdir_parents_grows [OF assms(1)] have g: "grows (butlast outp) s s1" by simp
  then have "lookup s1 outp = lookup s outp \<or> prefix outp (butlast outp)" by (auto simp: grows_def)
  with n assms(2) have "prefix outp (butlast outp)" by auto
  then have "length outp \<le> length (butlast outp)" by (rule prefix_length_le)
  then have e: "outp = []" by (cases outp rule: rev_cases) auto
  have "os_mkdir s [] = Inl FileNotFoundError"
    using assms(2) e by (simp add: os_mkdir_def parent_error_def)
  then have "mkdir_parents s [] = (Some FileNotFoundError, s)" by (simp add: mkdir_parents.simps [of s "[]"])
  with assms(1) e show False by simp
qed

lemma auto_all_fail:
  assumes auto: "output_format cv = ''webp''" "encode_method cv = ''auto''"
    and fail: "\<forall>img. \<forall>c \<in> set (webp_methods cv). \<not> candidate_encoded env img outp c"
    and nofile: "lookup s outp = None"
    and res: "convert_single cv env s inp outp = (Inr r, s')"
  shows "\<not> success r \<and> error r \<noteq> None \<and> lookup s' outp = None"
proof -
  from res obtain s1 where m: "mkdir_parents s (butlast outp) = (None, s1)"
    and t: "try_convert cv env s1 inp outp (init_result inp outp) = (r, s')"
    by (auto simp: convert_single_def split: prod.splits option.splits)
  have n1: "lookup s1 outp = None" using m nofile by (rule mkdir_parents_keeps_absent)
  have enc: "lookup s2 outp = None \<and> (\<forall>m. x = Inr m \<longrightarrow> getsize (dir_size env) s2 outp \<noteq> Inr k)"
    if "encode_output cv env s1 img outp = (x, s2)" for img x s2 k
  proof -
    from that obtain r0 b0 where
      l: "webp_loop env img outp (temp_path_of outp) (None, ''lossy'') s1 (webp_methods cv) = (r0, b0, s2)"
      by (auto simp: encode_output_def auto try_both_webp_def split: prod.splits option.splits)
    from webp_loop_not_encoded [OF l] fail n1 have "lookup s2 outp = None" by simp
    then show ?thesis by (simp add: getsize_def stat_def)
  qed
  show ?thesis
    using t n1 enc
    by (auto simp: try_convert_def failed_def init_result_def Let_def split: sum.splits prod.splits)
qed

section \<open>What is seen at the output path under the auto policy\<close>

lemma open_write_untouched:
  assumes "open_write s p = Inr s'" "p \<noteq> outp"
  shows "stays outp (\<lambda>n. n = lookup s outp) s s'"
  using assms by (auto simp: open_write_def stays_log_op split: option.splits if_splits)

lemma image_save_untouched:
  assumes "image_save env s img p fmt kw = (r, s')" "p \<noteq> outp"
  shows "stays outp (\<lambda>n. n = lookup s outp) s s'"
proof (cases "open_write s p")
  case (Inl e)
  with assms(1) have "s' = s" by (auto simp: image_save_def split: save_result.splits)
  then show ?thesis by (simp add: stays_refl)
next
  case (Inr s1)
  note u = open_write_untouched [OF Inr assms(2)]
  from stays_final [OF u] have l1: "lookup s1 outp = lookup s outp" .
  have w: "stays outp (\<lambda>n. n = lookup s outp) s1 (snapshot (put_node p (File b) s1))" for b
    using l1 assms(2) stays_snapshot [of "\<lambda>n. n = lookup s outp" "put_node p (File b) s1" outp]
    by (simp add: stays_def seen_snapshot)
  have d: "stays outp (\<lambda>n. n = lookup s outp) s1 (log_op (OpUnlink p) (del_node p s1))"
    using l1 assms(2) by (simp add: stays_log_op)
  show ?thesis
  proof (cases "encode env img fmt kw p")
    case (Encoded b)
    with assms(1) Inr have "s' = snapshot (put_node p (File b) s1)" by (simp add: image_save_def)
    with u w show ?thesis by (auto intro: stays_trans)
  next
    case (FailBeforeOpen e)
    with assms(1) have "s' = s" by (simp add: image_save_def)
    then show ?thesis by (simp add: stays_refl)
  next
    case (FailAfterOpen e left)
    with assms(1) Inr have "s' = snapshot (put_node p (File (the left)) s1)
        \<or> s' = log_op (OpUnlink p) (del_node p s1)"
      by (auto simp: image_save_def split: option.splits)
    with u w d show ?thesis by (auto intro: stays_trans)
  qed
qed

lemma image_save_None:
  assumes "image_save env s img p fmt kw = (None, s')"
  shows "\<exists>b. encode env img fmt kw p = Encoded b \<and> lookup s' p = Some (File b)"
  using assms
  by (auto simp: image_save_def split: save_result.splits sum.splits option.splits)

lemma unlink_untouched:
  assumes "unlink s p = Inr s'" "p \<noteq> outp"
  shows "stays outp (\<lambda>n. n = lookup s outp) s s'"
  using assms by (auto simp: unlink_def stays_log_op split: sum.splits node.splits)

lemma unlink_gone:
  assumes "unlink s outp = Inr s'" "Q None"
  shows "stays outp Q s s'"
  using assms by (auto simp: unlink_def stays_log_op split: sum.splits node.splits)

lemma rename_arrives:
  assumes "rename s src outp = Inr s'" "lookup s src = Some (File b)" "Q (Some (File b))"
  shows "stays outp Q s s'"
  using assms
  by (auto simp: rename_def stat_def stays_log_op split: option.splits if_splits)

text \<open>One iteration of the loop: what is at the output path is what was there, nothing,
  or the complete encoding of the candidate.\<close>

lemma candidate_body_stays:
  assumes cb: "candidate_body env img outp (temp_path_of outp) best s c = (r, best', s')"
    and q0: "Q (lookup s outp)" and qn: "Q None"
    and qc: "candidate_encoded env img outp c \<Longrightarrow>
               Q (Some (File (candidate_bytes env img outp c)))"
  shows "stays outp Q s s'"
proof -
  define temp where "temp = temp_path_of outp"
  have neq: "temp \<noteq> outp" by (simp add: temp_def temp_path_neq)
  obtain r1 s1 where sv: "image_save env s img temp (Some ''WEBP'') (snd c) = (r1, s1)"
    by (cases "image_save env s img temp (Some ''WEBP'') (snd c)")
  note u1 = image_save_untouched [OF sv neq]
  from stays_final [OF u1] have l1: "lookup s1 outp = lookup s outp" .
  have st1: "stays outp Q s s1" using u1 by (rule stays_mono) (simp add: q0)
  show ?thesis
  proof (cases r1)
    case (Some e)
    with cb sv have "s' = s1" by (simp add: candidate_body_def temp_def)
    with st1 show ?thesis by simp
  next
    case None
    from image_save_None [OF sv [unfolded None]] obtain b where
      enc: "encode env img (Some ''WEBP'') (snd c) temp = Encoded b"
      and f1: "lookup s1 temp = Some (File b)" by blast
    have "candidate_encoded env img outp c" "candidate_bytes env img outp c = b"
      using enc by (simp_all add: candidate_encoded_def candidate_bytes_def candidate_result_def temp_def)
    with qc have qb: "Q (Some (File b))" by simp
    have gs: "getsize (dir_size env) s1 temp = Inr (length b)"
      using f1 by (rule getsize_file)
    define better where
      "better = (case fst best of None \<Rightarrow> True | Some best_size \<Rightarrow> length b < best_size)"
    show ?thesis
    proof (cases better)
      case False
      have "stays outp Q s1 s'"
      proof (cases "unlink s1 temp")
        case (Inl e)
        with cb sv None gs False have "s' = s1"
          by (simp add: candidate_body_def temp_def [symmetric] better_def)
        then show ?thesis using q0 l1 by (simp add: stays_refl)
      next
        case (Inr s2)
        with cb sv None gs False have "s' = s2"
          by (simp add: candidate_body_def temp_def [symmetric] better_def)
        with unlink_untouched [OF Inr neq] show ?thesis
          by (auto elim!: stays_mono simp: l1 q0)
      qed
      with st1 show ?thesis by (rule stays_trans)
    next
      case True
      define gone where "gone = (if path_exists s1 outp then unlink s1 outp else Inr s1)"
      show ?thesis
      proof (cases gone)
        case (Inl e)
        with cb sv None gs True have "s' = s1"
          by (simp add: candidate_body_def temp_def [symmetric] better_def gone_def Let_def)
        with st1 show ?thesis by simp
      next
        case (Inr s2)
        have st2: "stays outp Q s1 s2"
        proof (cases "path_exists s1 outp")
          case True
          with Inr have "unlink s1 outp = Inr s2" by (simp add: gone_def)
          then show ?thesis using qn by (rule unlink_gone)
        next
          case False
          with Inr have "s2 = s1" by (simp add: gone_def)
          then show ?thesis using q0 l1 by (simp add: stays_refl)
        qed
        have f2: "lookup s2 temp = Some (File b)"
        proof (cases "path_exists s1 outp")
          case True
          with Inr have "unlink s1 outp = Inr s2" by (simp add: gone_def)
          from unlink_others [OF this neq] f1 show ?thesis by simp
        next
          case False
          with Inr f1 show ?thesis by (simp add: gone_def)
        qed
        have "stays outp Q s2 s'"
        proof (cases "rename s2 temp outp")
          case (Inl e)
          with cb sv None gs True Inr have "s' = s2"
            by (simp add: candidate_body_def temp_def [symmetric] better_def gone_def [symmetric] Let_def)
          then show ?thesis using stays_final [OF st2] by (simp add: stays_refl)
        next
          case (Inr s3)
          with cb sv None gs True \<open>gone = Inr s2\<close> have "s' = s3"
            by (simp add: candidate_body_def temp_def [symmetric] better_def gone_def [symmetric] Let_def)
          with rename_arrives [where Q = Q, OF Inr f2 qb] show ?thesis by simp
        qed
        with st1 st2 show ?thesis by (blast intro: stays_trans)
      qed
    qed
  qed
qed

lemma try_candidate_stays:
  assumes tc: "try_candidate env img outp (temp_path_of outp) best s c = (r, best', s')"
    and q0: "Q (lookup s outp)" and qn: "Q None"
    and qc: "candidate_encoded env img outp c \<Longrightarrow>
               Q (Some (File (candidate_bytes env img outp c)))"
  shows "stays outp Q s s'"
proof -
  obtain r1 b1 s1 where cb: "candidate_body env img outp (temp_path_of outp) best s c = (r1, b1, s1)"
    by (cases "candidate_body env img outp (temp_path_of outp) best s c") auto
  note st1 = candidate_body_stays [OF cb q0 qn qc]
  have neq: "temp_path_of outp \<noteq> outp" by (rule temp_path_neq)
  have u: "stays outp Q s1 s2" if "unlink s1 (temp_path_of outp) = Inr s2" for s2
    using unlink_untouched [OF that neq] stays_final [OF st1] by (auto elim!: stays_mono)
  have "s' = s1 \<or> unlink s1 (temp_path_of outp) = Inr s'"
    using tc by (auto simp: try_candidate_def cb split: option.splits sum.splits if_splits)
  with st1 u show ?thesis by (auto intro: stays_trans)
qed

lemma webp_loop_stays:
  assumes "webp_loop env img outp (temp_path_of outp) best s cs = (r, best', s')"
    and "Q (lookup s outp)" and "Q None"
    and "\<And>c. c \<in> set cs \<Longrightarrow> candidate_encoded env img outp c \<Longrightarrow>
               Q (Some (File (candidate_bytes env img outp c)))"
  shows "stays outp Q s s'"
  using assms
proof (induction cs arbitrary: best s)
  case Nil
  then show ?case by (simp add: stays_refl)
next
  case (Cons c cs)
  obtain r1 b1 s1 where t: "try_candidate env img outp (temp_path_of outp) best s c = (r1, b1, s1)"
    by (cases "try_candidate env img outp (temp_path_of outp) best s c") auto
  have st1: "stays outp Q s s1"
    using t Cons.prems(2,3) by (rule try_candidate_stays) (simp add: Cons.prems(4))
  show ?case
  proof (cases r1)
    case None
    with Cons.prems(1) t have "webp_loop env img outp (temp_path_of outp) b1 s1 cs = (r, best', s')"
      by simp
    then have "stays outp Q s1 s'"
      using stays_final [OF st1] Cons.prems(3) by (rule Cons.IH) (simp add: Cons.prems(4))
    with st1 show ?thesis by (rule stays_trans)
  next
    case (Some e)
    with Cons.prems(1) t st1 show ?thesis by simp
  qed
qed

lemma try_convert_auto_stays:
  assumes auto_policy: "output_format cv = ''webp''" "encode_method cv = ''auto''"
    and tc: "try_convert cv env s inp outp r0 = (r, s')"
    and q0: "Q (lookup s outp)" and qn: "Q None"
    and qf: "\<And>b. b \<in> set (finished_files cv env s inp outp) \<Longrightarrow> Q (Some (File b))"
  shows "stays outp Q s s'"
proof (cases "image_open env s inp")
  case (Inl e)
  with tc have "s' = s" by (auto simp: try_convert_def Let_def split: sum.splits)
  then show ?thesis using q0 by (simp add: stays_refl)
next
  case (Inr img0)
  show ?thesis
  proof (cases "bind_exn (normalize_mode cv env img0) (process_image cv env)")
    case (Inl e)
    with tc Inr have "s' = s" by (auto simp: try_convert_def Let_def split: sum.splits)
    then show ?thesis using q0 by (simp add: stays_refl)
  next
    case pr: (Inr pd)
    obtain img dims where pd: "pd = (img, dims)" by (cases pd)
    have ff: "finished_files cv env s inp outp
        = map (candidate_bytes env img outp) (filter (candidate_encoded env img outp) (webp_methods cv))"
      by (simp add: finished_files_def Inr pr pd)
    have qc: "Q (Some (File (candidate_bytes env img outp c)))"
      if "c \<in> set (webp_methods cv)" "candidate_encoded env img outp c" for c
      using that by (intro qf) (simp add: ff)
    show ?thesis
    proof (cases "getsize (dir_size env) s inp")
      case (Inl e)
      with tc have "s' = s" by (simp add: try_convert_def)
      then show ?thesis using q0 by (simp add: stays_refl)
    next
      case gs: (Inr osz)
      obtain x s2 where eo: "encode_output cv env s img outp = (x, s2)"
        by (cases "encode_output cv env s img outp")
      then obtain r1 b1 where
        l: "webp_loop env img outp (temp_path_of outp) (None, ''lossy'') s (webp_methods cv) = (r1, b1, s2)"
        by (auto simp: encode_output_def auto_policy try_both_webp_def split: prod.splits option.splits)
      have "stays outp Q s s2" using l q0 qn qc by (rule webp_loop_stays)
      moreover have "s' = s2"
        using tc gs Inr pr pd eo by (auto simp: try_convert_def Let_def split: sum.splits)
      ultimately show ?thesis by simp
    qed
  qed
qed

text \<open>The directories made on the way do not change what the input file is.\<close>

lemma finished_files_grows:
  assumes "grows p s s1"
  shows "set (finished_files cv env s1 inp outp) \<subseteq> set (finished_files cv env s inp outp)"
proof (cases "image_open env s1 inp")
  case (Inl e)
  then show ?thesis by (simp add: finished_files_def)
next
  case (Inr img)
  then obtain b where f: "lookup s1 inp = Some (File b)"
    by (auto simp: image_open_def bind_exn_def read_file_def stat_def
        split: sum.splits option.splits node.splits)
  moreover from assms have "lookup s1 inp = lookup s inp \<or> is_dir s1 inp" by (auto simp: grows_def)
  ultimately have "lookup s inp = Some (File b)" by (auto simp: is_dir_def)
  with f have "image_open env s1 inp = image_open env s inp"
    by (simp add: image_open_def read_file_def stat_def)
  then show ?thesis by (simp add: finished_files_def)
qed

lemma convert_single_auto_stays:
  assumes auto_policy: "output_format cv = ''webp''" "encode_method cv = ''auto''"
    and cs: "convert_single cv env s inp outp = (r, s')"
    and q0: "Q (lookup s outp)" and qn: "Q None"
    and qf: "\<And>b. b \<in> set (finished_files cv env s inp outp) \<Longrightarrow> Q (Some (File b))"
  shows "stays outp Q s s'"
proof -
  obtain r1 s1 where m: "mkdir_parents s (butlast outp) = (r1, s1)"
    by (cases "mkdir_parents s (butlast outp)")
  from mkdir_parents_above [OF m prefix_order.order_refl]
  have u: "stays outp (\<lambda>n. n = lookup s outp) s s1" by simp
  then have st1: "stays outp Q s s1" by (rule stays_mono) (simp add: q0)
  show ?thesis
  proof (cases r1)
    case (Some e)
    with cs m st1 show ?thesis by (simp add: convert_single_def)
  next
    case None
    obtain r2 s2 where t: "try_convert cv env s1 inp outp (init_result inp outp) = (r2, s2)"
      by (cases "try_convert cv env s1 inp outp (init_result inp outp)")
    from mkdir_parents_grows [OF m] have g: "grows (butlast outp) s s1" by simp
    have "stays outp Q s1 s2"
      using auto_policy t stays_final [OF st1] qn
    proof (rule try_convert_auto_stays)
      fix b assume "b \<in> set (finished_files cv env s1 inp outp)"
      with finished_files_grows [OF g, of cv env inp outp]
      have "b \<in> set (finished_files cv env s inp outp)" by blast
      then show "Q (Some (File b))" by (rule qf)
    qed
    with st1 have "stays outp Q s s2" by (rule stays_trans)
    with cs m None t show ?thesis by (simp add: convert_single_def)
  qed
qed

section \<open>Claims about the converter\<close>

text \<open>
  C1. The claim: for every list of file pairs \<open>convert_batch\<close> returns a result
  collection with one outcome per pair, however many conversions fail. The code breaks
  it: for the pairs \<open>(/data/in.png, /data/out.webp)\<close> and
  \<open>(/data/in.png, /data/in.png/out.webp)\<close>, where \<open>/data/in.png\<close> is a regular file, the
  second task raises \<open>FileExistsError\<close> from \<open>mkdir\<close>, and \<open>convert_batch\<close> raises it
  from \<open>f.result()\<close> instead of returning two outcomes, although the first task has
  written its output.
\<close>

theorem convert_batch_raises:
  "fst (convert_batch cv_webp_auto pil_ok fs_demo
          [([''data'', ''in.png''], [''data'', ''out.webp'']),
           ([''data'', ''in.png''], [''data'', ''in.png'', ''out.webp''])])
     = Inl FileExistsError
   \<and> lookup (snd (convert_batch cv_webp_auto pil_ok fs_demo
          [([''data'', ''in.png''], [''data'', ''out.webp'']),
           ([''data'', ''in.png''], [''data'', ''in.png'', ''out.webp''])]))
        [''data'', ''out.webp'']
     = Some (File ''PNGDATA'')"
  by code_simp

text \<open>
  C2. The claim: every exception raised while converting one file, in particular a
  failure to create the output directory or to rename, becomes an outcome with
  \<open>success = False\<close> and \<open>convert_single\<close> never raises. The code breaks it:
  \<open>mkdir\<close> runs before the \<open>try\<close> block, so with the output path
  \<open>/data/in.png/out.webp\<close> below a regular file \<open>convert_single\<close> raises
  \<open>FileExistsError\<close>; and with a directory at the output path \<open>/data/taken\<close> the failure
  to replace it is swallowed inside \<open>_try_both_webp\<close> and the outcome has
  \<open>success = True\<close>, the directory being still there.
\<close>

theorem convert_single_raises:
  "fst (convert_single cv_webp_auto pil_ok fs_demo [''data'', ''in.png'']
          [''data'', ''in.png'', ''out.webp''])
     = Inl FileExistsError
   \<and> map_sum id success
        (fst (convert_single cv_webp_auto pil_ok fs_demo [''data'', ''in.png''] [''data'', ''taken'']))
     = Inr True
   \<and> is_dir (snd (convert_single cv_webp_auto pil_ok fs_demo [''data'', ''in.png''] [''data'', ''taken'']))
        [''data'', ''taken'']"
  by code_simp

text \<open>
  C3, as amended. Under the auto policy (WebP output, method \<open>auto\<close>) a conversion
  never writes to the output path: the calls it makes are \<open>mkdir\<close> calls for
  directories above the output path, writes to the temporary name next to the output
  path, removals of the temporary file or of what is at the output path, and renames of
  the temporary file onto the output path. At every moment of the conversion, and
  after it, the output path holds what it held before the conversion, or nothing, or
  the complete encoding of one of the candidates; so it never holds a partially written
  file. The replacement is not one step: converting \<open>/data/in.png\<close> onto the existing
  \<open>/data/old.webp\<close>, the output path holds the old file, then nothing, then the
  lossless encoding, then nothing again, then the lossy encoding. (Under the fixed
  policy \<open>save\<close> writes to the output path itself.)
\<close>

theorem auto_writes_only_temp:
  assumes "output_format cv = ''webp''" "encode_method cv = ''auto''"
    and "convert_single cv env s inp outp = (r, s')"
  shows "temp_path_of outp \<noteq> outp
     \<and> (\<exists>ops. oplog s' = oplog s @ ops
           \<and> OpWrite outp \<notin> set ops
           \<and> list_all (\<lambda>x. (\<exists>d. x = OpMkdir d \<and> strict_prefix d outp)
                  \<or> x = OpWrite (temp_path_of outp) \<or> x = OpUnlink (temp_path_of outp)
                  \<or> x = OpUnlink outp \<or> x = OpRename (temp_path_of outp) outp) ops)
     \<and> (\<exists>ts. seen s' = seen s @ ts
           \<and> list_all (\<lambda>t. map_of t outp = lookup s outp \<or> map_of t outp = None
                  \<or> (\<exists>b \<in> set (finished_files cv env s inp outp).
                        map_of t outp = Some (File b))) ts)
     \<and> (lookup s' outp = lookup s outp \<or> lookup s' outp = None
          \<or> (\<exists>b \<in> set (finished_files cv env s inp outp). lookup s' outp = Some (File b)))
     \<and> map (\<lambda>t. map_of t [''data'', ''old.webp''])
         (seen (snd (convert_single cv_webp_auto pil_ok fs_demo [''data'', ''in.png'']
                       [''data'', ''old.webp''])))
       = [Some (File ''OLD''), Some (File ''OLD''), None, Some (File ''PNGDATAPNGDATA''),
          Some (File ''PNGDATAPNGDATA''), Some (File ''PNGDATAPNGDATA''), None,
          Some (File ''PNGDATA'')]"
proof -
  from convert_single_auto_ops [OF assms] obtain ops where
    o: "oplog s' = oplog s @ ops" "list_all (convert_op outp) ops"
    by (auto simp: only_ops_def)
  have n: "\<not> convert_op outp (OpWrite outp)"
    using temp_path_neq [of outp] by (auto simp: convert_op_def auto_op_def)
  then have "OpWrite outp \<notin> set ops" using o(2) by (auto simp: list_all_iff)
  moreover have "list_all (\<lambda>x. (\<exists>d. x = OpMkdir d \<and> strict_prefix d outp)
                  \<or> x = OpWrite (temp_path_of outp) \<or> x = OpUnlink (temp_path_of outp)
                  \<or> x = OpUnlink outp \<or> x = OpRename (temp_path_of outp) outp) ops"
    using o(2) by (auto simp: list_all_iff convert_op_def auto_op_def)
  ultimately have ops: "\<exists>ops. oplog s' = oplog s @ ops
           \<and> OpWrite outp \<notin> set ops
           \<and> list_all (\<lambda>x. (\<exists>d. x = OpMkdir d \<and> strict_prefix d outp)
                  \<or> x = OpWrite (temp_path_of outp) \<or> x = OpUnlink (temp_path_of outp)
                  \<or> x = OpUnlink outp \<or> x = OpRename (temp_path_of outp) outp) ops"
    using o(1) by blast
  define Q where "Q = (\<lambda>n. n = lookup s outp \<or> n = None
      \<or> (\<exists>b \<in> set (finished_files cv env s inp outp). n = Some (File b)))"
  have "stays outp Q s s'"
    using assms by (rule convert_single_auto_stays) (auto simp: Q_def)
  then have st: "(\<exists>ts. seen s' = seen s @ ts \<and> list_all (\<lambda>t. Q (map_of t outp)) ts)
      \<and> Q (lookup s' outp)"
    by (simp add: stays_def)
  have demo: "map (\<lambda>t. map_of t [''data'', ''old.webp''])
         (seen (snd (convert_single cv_webp_auto pil_ok fs_demo [''data'', ''in.png'']
                       [''data'', ''old.webp''])))
       = [Some (File ''OLD''), Some (File ''OLD''), None, Some (File ''PNGDATAPNGDATA''),
          Some (File ''PNGDATAPNGDATA''), Some (File ''PNGDATAPNGDATA''), None,
          Some (File ''PNGDATA'')]"
    by code_simp
  show ?thesis
    using temp_path_neq [of outp] ops st [unfolded Q_def] demo by (intro conjI) blast+
qed

theorem auto_writes_only_temp_witness:
  "output_format cv_webp_auto = ''webp'' \<and> encode_method cv_webp_auto = ''auto''
   \<and> finished_files cv_webp_auto pil_ok fs_demo [''data'', ''in.png''] [''data'', ''out.webp'']
       = [''PNGDATAPNGDATA'', ''PNGDATA'']
   \<and> (\<exists>ops. oplog (snd (convert_single cv_webp_auto pil_ok fs_demo [''data'', ''in.png'']
                            [''data'', ''out.webp''])) = oplog fs_demo @ ops
         \<and> OpWrite [''data'', ''out.webp''] \<notin> set ops)
   \<and> (\<exists>ts. seen (snd (convert_single cv_webp_auto pil_ok fs_demo [''data'', ''in.png'']
                          [''data'', ''out.webp''])) = seen fs_demo @ ts
         \<and> list_all (\<lambda>t. map_of t [''data'', ''out.webp''] = lookup fs_demo [''data'', ''out.webp'']
                \<or> map_of t [''data'', ''out.webp''] = None
                \<or> (\<exists>b \<in> set (finished_files cv_webp_auto pil_ok fs_demo [''data'', ''in.png'']
                                 [''data'', ''out.webp'']).
                      map_of t [''data'', ''out.webp''] = Some (File b))) ts)"
proof -
  have h1: "output_format cv_webp_auto = ''webp''" by code_simp
  have h2: "encode_method cv_webp_auto = ''auto''" by code_simp
  have h3: "convert_single cv_webp_auto pil_ok fs_demo [''data'', ''in.png''] [''data'', ''out.webp'']
      = (fst (convert_single cv_webp_auto pil_ok fs_demo [''data'', ''in.png''] [''data'', ''out.webp'']),
         snd (convert_single cv_webp_auto pil_ok fs_demo [''data'', ''in.png''] [''data'', ''out.webp'']))"
    by simp
  have h4: "finished_files cv_webp_auto pil_ok fs_demo [''data'', ''in.png''] [''data'', ''out.webp'']
       = [''PNGDATAPNGDATA'', ''PNGDATA'']" by code_simp
  from auto_writes_only_temp [OF h1 h2 h3] h1 h2 h4 show ?thesis by blast
qed

text \<open>
  C3 as stated fails for the fixed policy: converting \<open>/data/in.png\<close> to PNG makes one
  call, a write to the output path \<open>/data/out.png\<close> itself, and the output path holds
  an empty file before it holds the encoding.
\<close>

theorem fixed_writes_output_counterexample:
  "oplog (snd (convert_single cv_png pil_ok fs_demo [''data'', ''in.png''] [''data'', ''out.png'']))
     = [OpWrite [''data'', ''out.png'']]
   \<and> map (\<lambda>t. map_of t [''data'', ''out.png''])
       (seen (snd (convert_single cv_png pil_ok fs_demo [''data'', ''in.png''] [''data'', ''out.png''])))
     = [Some (File []), Some (File ''PNGDATA'')]"
  by code_simp

text \<open>
  C4. For an auto-policy encode where nothing exists at the output path and at least
  one candidate strategy succeeds, \<open>_try_both_webp\<close> returns the name of a successful
  candidate; afterwards the output path holds that candidate's bytes, the temporary
  path holds nothing and every other path is as before; the file is no longer than the
  encoding of any successful candidate; and when the first strategy tried succeeded
  with the same size, it is the one kept and reported.
\<close>

theorem auto_keeps_smallest:
  assumes nofile: "lookup s outp = None"
    and c0: "c0 \<in> set (webp_methods cv)" "candidate_succeeds env s img outp c0"
  shows "\<exists>c s'. c \<in> set (webp_methods cv) \<and> candidate_succeeds env s img outp c
          \<and> try_both_webp cv env s img outp = (Inr (fst c), s')
          \<and> lookup s' outp = Some (File (candidate_bytes env img outp c))
          \<and> lookup s' (temp_path_of outp) = None
          \<and> (\<forall>q. q \<noteq> outp \<longrightarrow> q \<noteq> temp_path_of outp \<longrightarrow> lookup s' q = lookup s q)
          \<and> (\<forall>c' \<in> set (webp_methods cv). candidate_succeeds env s img outp c' \<longrightarrow>
                length (candidate_bytes env img outp c) \<le> length (candidate_bytes env img outp c'))
          \<and> (candidate_succeeds env s img outp (hd (webp_methods cv))
                \<and> length (candidate_bytes env img outp (hd (webp_methods cv)))
                    = length (candidate_bytes env img outp c)
              \<longrightarrow> c = hd (webp_methods cv))"
proof -
  note d = candidate_succeeds_dirs [OF c0(2)]
  note iff = candidate_succeeds_iff [OF d [THEN conjunct1] d [THEN conjunct2]]
  let ?sel = "select_smallest env img outp None (webp_methods cv)"
  have "?sel \<noteq> None" using c0 by (intro select_smallest_exists) (auto simp: iff)
  then obtain c where c: "?sel = Some c" by auto
  have ne: "webp_methods cv \<noteq> []" by (simp add: webp_methods_def)
  from webp_loop_spec [OF d [THEN conjunct1] d [THEN conjunct2], of "(None, ''lossy'')" env img None "webp_methods cv"]
  obtain s' where l: "webp_loop env img outp (temp_path_of outp) (None, ''lossy'') s (webp_methods cv)
             = (None, best_of env img outp (Some c), s')"
    and o: "lookup s' outp = out_node env img outp (Some c)"
    and t: "lookup s' (temp_path_of outp) = None"
    and r: "\<And>q. q \<noteq> outp \<Longrightarrow> q \<noteq> temp_path_of outp \<Longrightarrow> lookup s' q = lookup s q"
    using nofile ne by (auto simp: best_of_def out_node_def c)
  note snd = select_smallest_sound [OF c]
  have tie: "candidate_succeeds env s img outp (hd (webp_methods cv))
                \<and> length (candidate_bytes env img outp (hd (webp_methods cv)))
                    = length (candidate_bytes env img outp c)
              \<longrightarrow> c = hd (webp_methods cv)"
  proof
    assume a: "candidate_succeeds env s img outp (hd (webp_methods cv))
                \<and> length (candidate_bytes env img outp (hd (webp_methods cv)))
                    = length (candidate_bytes env img outp c)"
    obtain c1 cs where m: "webp_methods cv = c1 # cs" by (simp add: webp_methods_def)
    from a m have e1: "candidate_encoded env img outp c1" by (simp add: iff)
    then have "select_smallest env img outp (Some c1) cs = Some c" using c m by simp
    from select_smallest_keeps [OF this] a m show "c = hd (webp_methods cv)" by auto
  qed
  show ?thesis
    using snd l o t r tie
    by (intro exI [of _ c] exI [of _ s']) (auto simp: try_both_webp_def best_of_def out_node_def iff)
qed

theorem auto_keeps_smallest_witness:
  "lookup fs_demo [''data'', ''out.webp''] = None
   \<and> hd (webp_methods cv_webp_auto) \<in> set (webp_methods cv_webp_auto)
   \<and> candidate_succeeds pil_ok fs_demo \<lparr>mode = ''RGB'', size_img = (4, 4), data = ''abc''\<rparr>
        [''data'', ''out.webp''] (hd (webp_methods cv_webp_auto))
   \<and> (\<exists>c s'. c \<in> set (webp_methods cv_webp_auto)
         \<and> try_both_webp cv_webp_auto pil_ok fs_demo \<lparr>mode = ''RGB'', size_img = (4, 4), data = ''abc''\<rparr>
              [''data'', ''out.webp''] = (Inr (fst c), s')
         \<and> lookup s' [''data'', ''out.webp'']
              = Some (File (candidate_bytes pil_ok \<lparr>mode = ''RGB'', size_img = (4, 4), data = ''abc''\<rparr>
                              [''data'', ''out.webp''] c))
         \<and> lookup s' (temp_path_of [''data'', ''out.webp'']) = None)"
proof -
  have h1: "lookup fs_demo [''data'', ''out.webp''] = None" by code_simp
  have h2: "hd (webp_methods cv_webp_auto) \<in> set (webp_methods cv_webp_auto)"
    by (simp add: webp_methods_def)
  have h3: "candidate_succeeds pil_ok fs_demo \<lparr>mode = ''RGB'', size_img = (4, 4), data = ''abc''\<rparr>
        [''data'', ''out.webp''] (hd (webp_methods cv_webp_auto))" by code_simp
  from auto_keeps_smallest [OF h1 h2 h3] h1 h2 h3 show ?thesis by blast
qed

text \<open>
  C5. The claim: when every candidate strategy of an auto-policy encode fails, the
  outcome has \<open>success = False\<close> and no file is at the output path afterwards, also when
  a file was there before. The code breaks it in that last case: with the output
  \<open>/data/old.webp\<close> of an earlier conversion in place and an encoder that fails for
  both strategies, the outcome has \<open>success = True\<close>, no error and the method \<open>lossy\<close>,
  its converted size is that of the old file, and the old file is still there.
\<close>

theorem auto_all_fail_reports_success:
  "map_sum id (\<lambda>r. (success r, error r, method_used r, converted_size r))
       (fst (convert_single cv_webp_auto pil_failing fs_demo [''data'', ''in.png'']
               [''data'', ''old.webp'']))
     = Inr (True, None, ''lossy'', 3)
   \<and> lookup (snd (convert_single cv_webp_auto pil_failing fs_demo [''data'', ''in.png'']
               [''data'', ''old.webp''])) [''data'', ''old.webp'']
     = Some (File ''OLD'')"
  by code_simp

text \<open>
  C8, as amended. Before encoding: when the destination format is \<open>jpeg\<close> or \<open>jpg\<close>, an
  image of mode \<open>RGBA\<close>, \<open>P\<close> or \<open>LA\<close> is converted to \<open>RGB\<close>; when the destination
  format is \<open>webp\<close>, an image of mode \<open>P\<close> is converted to \<open>RGBA\<close>; for every other
  destination format and mode the image is passed on as it is.
\<close>

theorem normalize_mode_rule:
  "((output_format cv = ''jpeg'' \<or> output_format cv = ''jpg'')
      \<and> (mode img = ''RGBA'' \<or> mode img = ''P'' \<or> mode img = ''LA'')
      \<and> normalize_mode cv env img = Inr img' \<longrightarrow> img' = img\<lparr>mode := ''RGB''\<rparr>)
   \<and> (output_format cv = ''webp'' \<and> mode img = ''P''
      \<and> normalize_mode cv env img = Inr img' \<longrightarrow> img' = img\<lparr>mode := ''RGBA''\<rparr>)
   \<and> (\<not> ((output_format cv = ''jpeg'' \<or> output_format cv = ''jpg'')
           \<and> (mode img = ''RGBA'' \<or> mode img = ''P'' \<or> mode img = ''LA''))
      \<and> \<not> (output_format cv = ''webp'' \<and> mode img = ''P'')
      \<longrightarrow> normalize_mode cv env img = Inr img)"
  by (auto simp: normalize_mode_def image_convert_def split: option.splits)

theorem normalize_mode_rule_witness:
  "output_format (ImageConverter ''JPEG'' ''auto'' 90 False (512, 512) None) = ''jpeg''
   \<and> normalize_mode (ImageConverter ''JPEG'' ''auto'' 90 False (512, 512) None) pil_ok
        \<lparr>mode = ''LA'', size_img = (8, 8), data = ''px''\<rparr>
      = Inr \<lparr>mode = ''RGB'', size_img = (8, 8), data = ''px''\<rparr>
   \<and> \<lparr>mode = ''RGB'', size_img = (8, 8), data = ''px''\<rparr>
      = \<lparr>mode = ''LA'', size_img = (8, 8), data = ''px''\<rparr>\<lparr>mode := ''RGB''\<rparr>"
proof -
  have h1: "output_format (ImageConverter ''JPEG'' ''auto'' 90 False (512, 512) None) = ''jpeg''"
    by code_simp
  have h2: "normalize_mode (ImageConverter ''JPEG'' ''auto'' 90 False (512, 512) None) pil_ok
        \<lparr>mode = ''LA'', size_img = (8, 8), data = ''px''\<rparr>
      = Inr \<lparr>mode = ''RGB'', size_img = (8, 8), data = ''px''\<rparr>"
    by code_simp
  from normalize_mode_rule [of "ImageConverter ''JPEG'' ''auto'' 90 False (512, 512) None"
      "\<lparr>mode = ''LA'', size_img = (8, 8), data = ''px''\<rparr>" pil_ok
      "\<lparr>mode = ''RGB'', size_img = (8, 8), data = ''px''\<rparr>"] h1 h2
  show ?thesis by simp
qed

text \<open>
  C8 as stated fails for the destination format \<open>png\<close>, whichever alpha capability one
  takes it to have: a palette image is not expanded to a mode with alpha, and an
  \<open>RGBA\<close> image is not made opaque; both reach the encoder unchanged.
\<close>

theorem normalize_mode_png_counterexample:
  "normalize_mode cv_png pil_ok \<lparr>mode = ''P'', size_img = (8, 8), data = ''px''\<rparr>
     = Inr \<lparr>mode = ''P'', size_img = (8, 8), data = ''px''\<rparr>
   \<and> normalize_mode cv_png pil_ok \<lparr>mode = ''RGBA'', size_img = (8, 8), data = ''px''\<rparr>
     = Inr \<lparr>mode = ''RGBA'', size_img = (8, 8), data = ''px''\<rparr>"
  by code_simp

section \<open>Claims about the session store\<close>

text \<open>
  C9, as amended. When each of the two roots is a directory or does not exist, one run
  of \<open>cleanup_old_sessions\<close> returns, and for every directory directly below a root:
  when its age (the time of the sweep minus its modification time) is not above
  \<open>SESSION_MAX_AGE\<close>, which is 3600, the directory and everything below it are as
  before; when its age is above it, everything below it that can be removed is gone,
  and what remains (an entry whose removal fails, and the directories above it) is as
  before. So when nothing below the directory is stuck, the directory is gone after the
  sweep exactly when its age is above 3600, and then with everything below it.
\<close>

theorem sweep_deletes_expired:
  assumes "is_dir s (UPLOAD_DIR b) \<or> \<not> path_exists s (UPLOAD_DIR b)"
    and "is_dir s (CONVERSION_DIR b) \<or> \<not> path_exists s (CONVERSION_DIR b)"
    and "base = UPLOAD_DIR b \<or> base = CONVERSION_DIR b"
    and "is_dir s base"
    and "lookup s (base @ [name]) = Some (Dir st_mtime)"
  shows "SESSION_MAX_AGE = 3600 \<and>
     (\<exists>s'. cleanup_old_sessions stuck b s = (None, s')
        \<and> (\<not> remains stuck s (base @ [name]) \<longrightarrow>
             (lookup s' (base @ [name]) = None) = (clock s - st_mtime > SESSION_MAX_AGE))
        \<and> (if clock s - st_mtime > SESSION_MAX_AGE
           then (\<forall>q. prefix (base @ [name]) q \<longrightarrow>
                   lookup s' q = (if remains stuck s q then lookup s q else None))
           else (\<forall>q. prefix (base @ [name]) q \<longrightarrow> lookup s' q = lookup s q)))"
proof -
  from sweep_subtree [OF assms, of stuck] obtain s' where
    r: "cleanup_old_sessions stuck b s = (None, s')"
    and t: "if clock s - st_mtime > SESSION_MAX_AGE
           then (\<forall>q. prefix (base @ [name]) q \<longrightarrow>
                   lookup s' q = (if remains stuck s q then lookup s q else None))
           else (\<forall>q. prefix (base @ [name]) q \<longrightarrow> lookup s' q = lookup s q)"
    by blast
  have "(lookup s' (base @ [name]) = None) = (clock s - st_mtime > SESSION_MAX_AGE)"
    if "\<not> remains stuck s (base @ [name])"
  proof (cases "clock s - st_mtime > SESSION_MAX_AGE")
    case True
    with t that show ?thesis by simp
  next
    case False
    with t have "lookup s' (base @ [name]) = lookup s (base @ [name])" by simp
    with False assms(5) show ?thesis by simp
  qed
  with r t show ?thesis by (intro conjI exI [of _ s']) (simp_all add: SESSION_MAX_AGE_def)
qed

theorem sweep_deletes_expired_witness:
  "is_dir fs_app (UPLOAD_DIR [''srv'']) \<and> is_dir fs_app (CONVERSION_DIR [''srv''])
   \<and> lookup fs_app (UPLOAD_DIR [''srv''] @ [''edge'']) = Some (Dir 1400)
   \<and> \<not> clock fs_app - 1400 > SESSION_MAX_AGE
   \<and> (\<exists>s'. cleanup_old_sessions (\<lambda>k. False) [''srv''] fs_app = (None, s')
         \<and> (\<forall>q. prefix (UPLOAD_DIR [''srv''] @ [''edge'']) q \<longrightarrow> lookup s' q = lookup fs_app q))"
proof -
  have h1: "is_dir fs_app (UPLOAD_DIR [''srv''])" by code_simp
  have h2: "is_dir fs_app (CONVERSION_DIR [''srv''])" by code_simp
  have h3: "UPLOAD_DIR [''srv''] = UPLOAD_DIR [''srv''] \<or> UPLOAD_DIR [''srv''] = CONVERSION_DIR [''srv'']"
    by simp
  have h4: "lookup fs_app (UPLOAD_DIR [''srv''] @ [''edge'']) = Some (Dir 1400)" by code_simp
  have h5: "\<not> clock fs_app - 1400 > SESSION_MAX_AGE" by code_simp
  from sweep_deletes_expired [OF disjI1 [OF h1] disjI1 [OF h2] h3 h1 h4, of "\<lambda>k. False"]
  obtain s' where
    "cleanup_old_sessions (\<lambda>k. False) [''srv''] fs_app = (None, s')"
    "if clock fs_app - 1400 > SESSION_MAX_AGE
     then (\<forall>q. prefix (UPLOAD_DIR [''srv''] @ [''edge'']) q \<longrightarrow>
             lookup s' q = (if remains (\<lambda>k. False) fs_app q then lookup fs_app q else None))
     else (\<forall>q. prefix (UPLOAD_DIR [''srv''] @ [''edge'']) q \<longrightarrow> lookup s' q = lookup fs_app q)"
    by blast
  with h1 h2 h4 h5 show ?thesis by auto
qed

text \<open>
  C9 as stated fails in two ways. With a regular file where the upload root should be,
  \<open>iterdir\<close> raises \<open>NotADirectoryError\<close> out of the sweep, and the conversion session
  \<open>old\<close>, 4000 seconds old, is still there. And with the file \<open>a.png\<close> stuck, the
  upload session \<open>old\<close>, 4000 seconds old, survives a sweep that returns, with the file
  in it.
\<close>

theorem sweep_keeps_expired_counterexample:
  "fst (cleanup_old_sessions (\<lambda>k. False) [''srv''] fs_app_blocked) = Some NotADirectoryError
   \<and> lookup (snd (cleanup_old_sessions (\<lambda>k. False) [''srv''] fs_app_blocked))
        [''srv'', ''conversions'', ''old''] = Some (Dir 1000)
   \<and> clock fs_app_blocked - 1000 > SESSION_MAX_AGE
   \<and> fst (cleanup_old_sessions (\<lambda>k. k = [''srv'', ''uploads'', ''old'', ''a.png'']) [''srv''] fs_app)
       = None
   \<and> lookup (snd (cleanup_old_sessions (\<lambda>k. k = [''srv'', ''uploads'', ''old'', ''a.png''])
                    [''srv''] fs_app))
        [''srv'', ''uploads'', ''old''] = Some (Dir 1000)
   \<and> lookup (snd (cleanup_old_sessions (\<lambda>k. k = [''srv'', ''uploads'', ''old'', ''a.png''])
                    [''srv''] fs_app))
        [''srv'', ''uploads'', ''old'', ''a.png''] = Some (File ''PNGDATA'')
   \<and> lookup (snd (cleanup_old_sessions (\<lambda>k. k = [''srv'', ''uploads'', ''old'', ''a.png''])
                    [''srv''] fs_app))
        [''srv'', ''conversions'', ''old''] = None
   \<and> clock fs_app - 1000 > SESSION_MAX_AGE"
  by code_simp

text \<open>
  C10. The session-directory operations do not check the identifier. Whenever
  \<open>session_upload_dir\<close> or \<open>session_conversion_dir\<close> returns, it returns exactly the
  root joined with the identifier, and that path is a directory afterwards: the walk
  of the operating system through it, \<open>..\<close> components included, ends in the
  directory the path resolves to. The only way not to return is an exception of
  \<open>mkdir(parents=True, exist_ok=True)\<close> on the joined path; below a root that is a
  directory, an identifier of one plain component makes the operation return unless a
  regular file has that name. With the identifier \<open>../outside\<close> the directory made is
  \<open>/srv/outside\<close>, which is not below \<open>/srv/uploads\<close> (or \<open>/srv/conversions\<close>); with
  \<open>a/../b\<close> both \<open>a\<close> and \<open>b\<close> are made below the root; with \<open>old/a.png/../x\<close>, where
  \<open>a.png\<close> is a regular file, the operation raises \<open>NotADirectoryError\<close>. A stored
  file name, in contrast, is the last component of the name sent: it has no separator in
  it, it adds at most one component to the session directory, and a name sent with
  directories in front (\<open>../../etc/passwd\<close>) is stored under its last component
  (\<open>passwd\<close>).
\<close>

theorem session_dirs_unchecked:
  "(session_upload_dir b s sid = (Inr p, s') \<longrightarrow>
       p = path_join (UPLOAD_DIR b) sid \<and> is_dir_lex s' p \<and> is_dir s' (os_resolve p))
   \<and> (session_conversion_dir b s sid = (Inr p, s') \<longrightarrow>
       p = path_join (CONVERSION_DIR b) sid \<and> is_dir_lex s' p \<and> is_dir s' (os_resolve p))
   \<and> (session_upload_dir b s sid = (Inl e, s') \<longrightarrow>
       mkdir_parents_lex s (path_join (UPLOAD_DIR b) sid) = (Some e, s'))
   \<and> (session_conversion_dir b s sid = (Inl e, s') \<longrightarrow>
       mkdir_parents_lex s (path_join (CONVERSION_DIR b) sid) = (Some e, s'))
   \<and> (is_dir_lex s (UPLOAD_DIR b) \<and> CHR ''/'' \<notin> set sid \<and> sid \<noteq> [] \<and> sid \<noteq> ''.''
        \<and> sid \<noteq> ''..'' \<and> \<not> is_file s (os_resolve (UPLOAD_DIR b) @ [sid]) \<longrightarrow>
       (\<exists>s1. session_upload_dir b s sid = (Inr (UPLOAD_DIR b @ [sid]), s1)))
   \<and> (is_dir_lex s (CONVERSION_DIR b) \<and> CHR ''/'' \<notin> set sid \<and> sid \<noteq> [] \<and> sid \<noteq> ''.''
        \<and> sid \<noteq> ''..'' \<and> \<not> is_file s (os_resolve (CONVERSION_DIR b) @ [sid]) \<longrightarrow>
       (\<exists>s1. session_conversion_dir b s sid = (Inr (CONVERSION_DIR b @ [sid]), s1)))
   \<and> fst (session_upload_dir [''srv''] fs_app ''../outside'')
       = Inr [''srv'', ''uploads'', ''..'', ''outside'']
   \<and> is_dir (snd (session_upload_dir [''srv''] fs_app ''../outside'')) [''srv'', ''outside'']
   \<and> \<not> is_dir fs_app [''srv'', ''outside'']
   \<and> \<not> prefix (UPLOAD_DIR [''srv'']) [''srv'', ''outside'']
   \<and> fst (session_conversion_dir [''srv''] fs_app ''../outside'')
       = Inr [''srv'', ''conversions'', ''..'', ''outside'']
   \<and> is_dir (snd (session_conversion_dir [''srv''] fs_app ''../outside'')) [''srv'', ''outside'']
   \<and> \<not> prefix (CONVERSION_DIR [''srv'']) [''srv'', ''outside'']
   \<and> fst (session_upload_dir [''srv''] fs_app ''a/../b'')
       = Inr [''srv'', ''uploads'', ''a'', ''..'', ''b'']
   \<and> is_dir (snd (session_upload_dir [''srv''] fs_app ''a/../b'')) [''srv'', ''uploads'', ''a'']
   \<and> is_dir (snd (session_upload_dir [''srv''] fs_app ''a/../b'')) [''srv'', ''uploads'', ''b'']
   \<and> fst (session_upload_dir [''srv''] fs_app ''old/a.png/../x'') = Inl NotADirectoryError
   \<and> snd (session_upload_dir [''srv''] fs_app ''old/a.png/../x'') = fs_app
   \<and> CHR ''/'' \<notin> set (safe_name filename)
   \<and> path_join d (safe_name filename)
       = (if safe_name filename = [] then d else d @ [safe_name filename])
   \<and> (CHR ''/'' \<notin> set w \<and> w \<noteq> [] \<and> w \<noteq> ''.'' \<longrightarrow>
       safe_name (pre @ ''/'' @ w) = w \<and> safe_name w = w)
   \<and> safe_name ''../../etc/passwd'' = ''passwd''"
proof -
  have 1: "session_upload_dir b s sid = (Inr p, s') \<longrightarrow>
       p = path_join (UPLOAD_DIR b) sid \<and> is_dir_lex s' p \<and> is_dir s' (os_resolve p)"
    using session_dir_result [of "UPLOAD_DIR b" s sid p s'] by (simp add: session_upload_dir_def)
  have 2: "session_conversion_dir b s sid = (Inr p, s') \<longrightarrow>
       p = path_join (CONVERSION_DIR b) sid \<and> is_dir_lex s' p \<and> is_dir s' (os_resolve p)"
    using session_dir_result [of "CONVERSION_DIR b" s sid p s'] by (simp add: session_conversion_dir_def)
  have 3: "session_upload_dir b s sid = (Inl e, s') \<longrightarrow>
       mkdir_parents_lex s (path_join (UPLOAD_DIR b) sid) = (Some e, s')"
    using session_dir_raises [of "UPLOAD_DIR b" s sid e s'] by (simp add: session_upload_dir_def)
  have 4: "session_conversion_dir b s sid = (Inl e, s') \<longrightarrow>
       mkdir_parents_lex s (path_join (CONVERSION_DIR b) sid) = (Some e, s')"
    using session_dir_raises [of "CONVERSION_DIR b" s sid e s'] by (simp add: session_conversion_dir_def)
  have 5: "is_dir_lex s (UPLOAD_DIR b) \<and> CHR ''/'' \<notin> set sid \<and> sid \<noteq> [] \<and> sid \<noteq> ''.''
        \<and> sid \<noteq> ''..'' \<and> \<not> is_file s (os_resolve (UPLOAD_DIR b) @ [sid]) \<longrightarrow>
       (\<exists>s1. session_upload_dir b s sid = (Inr (UPLOAD_DIR b @ [sid]), s1))"
    using session_dir_returns [of s "UPLOAD_DIR b" sid] by (simp add: session_upload_dir_def)
  have 6: "is_dir_lex s (CONVERSION_DIR b) \<and> CHR ''/'' \<notin> set sid \<and> sid \<noteq> [] \<and> sid \<noteq> ''.''
        \<and> sid \<noteq> ''..'' \<and> \<not> is_file s (os_resolve (CONVERSION_DIR b) @ [sid]) \<longrightarrow>
       (\<exists>s1. session_conversion_dir b s sid = (Inr (CONVERSION_DIR b @ [sid]), s1))"
    using session_dir_returns [of s "CONVERSION_DIR b" sid] by (simp add: session_conversion_dir_def)
  have 7: "fst (session_upload_dir [''srv''] fs_app ''../outside'')
       = Inr [''srv'', ''uploads'', ''..'', ''outside'']
     \<and> is_dir (snd (session_upload_dir [''srv''] fs_app ''../outside'')) [''srv'', ''outside'']
     \<and> \<not> is_dir fs_app [''srv'', ''outside'']
     \<and> \<not> prefix (UPLOAD_DIR [''srv'']) [''srv'', ''outside'']" by code_simp
  have 8: "fst (session_conversion_dir [''srv''] fs_app ''../outside'')
       = Inr [''srv'', ''conversions'', ''..'', ''outside'']
     \<and> is_dir (snd (session_conversion_dir [''srv''] fs_app ''../outside'')) [''srv'', ''outside'']
     \<and> \<not> prefix (CONVERSION_DIR [''srv'']) [''srv'', ''outside'']" by code_simp
  have 9: "fst (session_upload_dir [''srv''] fs_app ''a/../b'')
       = Inr [''srv'', ''uploads'', ''a'', ''..'', ''b'']
     \<and> is_dir (snd (session_upload_dir [''srv''] fs_app ''a/../b'')) [''srv'', ''uploads'', ''a'']
     \<and> is_dir (snd (session_upload_dir [''srv''] fs_app ''a/../b'')) [''srv'', ''uploads'', ''b'']"
    by code_simp
  have 10: "fst (session_upload_dir [''srv''] fs_app ''old/a.png/../x'') = Inl NotADirectoryError
     \<and> snd (session_upload_dir [''srv''] fs_app ''old/a.png/../x'') = fs_app" by code_simp
  have 11: "safe_name ''../../etc/passwd'' = ''passwd''" by code_simp
  have 12: "CHR ''/'' \<notin> set w \<and> w \<noteq> [] \<and> w \<noteq> ''.'' \<longrightarrow>
       safe_name (pre @ ''/'' @ w) = w \<and> safe_name w = w"
    using safe_name_last [of w pre] by blast
  show ?thesis
    using 1 2 3 4 5 6 7 8 9 10 11 12 safe_name_no_slash [of filename] safe_name_single [of d filename]
    by blast
qed

theorem session_dirs_unchecked_witness:
  "fst (session_upload_dir [''srv''] fs_app ''abc123'') = Inr [''srv'', ''uploads'', ''abc123'']
   \<and> [''srv'', ''uploads'', ''abc123''] = path_join (UPLOAD_DIR [''srv'']) ''abc123''
   \<and> is_dir_lex (snd (session_upload_dir [''srv''] fs_app ''abc123''))
        [''srv'', ''uploads'', ''abc123'']
   \<and> is_dir (snd (session_upload_dir [''srv''] fs_app ''abc123''))
        (os_resolve [''srv'', ''uploads'', ''abc123''])"
proof -
  have h1: "fst (session_upload_dir [''srv''] fs_app ''abc123'') = Inr [''srv'', ''uploads'', ''abc123'']"
    by code_simp
  have h: "session_upload_dir [''srv''] fs_app ''abc123''
      = (Inr [''srv'', ''uploads'', ''abc123''], snd (session_upload_dir [''srv''] fs_app ''abc123''))"
    using h1 by (simp add: prod_eq_iff)
  from session_dirs_unchecked [of "[''srv'']" fs_app "''abc123''" "[''srv'', ''uploads'', ''abc123'']"
      "snd (session_upload_dir [''srv''] fs_app ''abc123'')", THEN conjunct1, THEN mp, OF h] h1
  show ?thesis by blast
qed

end
